theory Spec2Isabelle
  imports Main "HOL-Library.Sublist" "HOL-Library.Multiset"
begin

section \<open>Python values, exceptions and promises\<close>

text \<open>
  Objects are named by their identity. A thread is named by a number as well.
\<close>

type_synonym ref = nat
type_synonym thread = nat

text \<open>
  The exceptions the code raises, catches or tests for. \<open>AlreadySet\<close> is the failure
  of a second settlement of a promise; \<open>Error n\<close> is any other exception of user code.
\<close>

datatype exn =
  GeneratorExit | SystemExit | KeyboardInterrupt | RuntimeError | ValueError
  | AttributeError | TypeError | AlreadySet | Error nat

text \<open>\<^verbatim>\<open>isinstance(e, (SystemExit, KeyboardInterrupt))\<close>\<close>

definition fatal :: "exn \<Rightarrow> bool" where
  "fatal e = (e = SystemExit \<or> e = KeyboardInterrupt)"

text \<open>
  The values user code hands to the engine: \<open>None\<close>, the sentinel object
  \<open>NotFinished\<close>, an \<open>InProgress\<close> object, a generator object, or any other datum.
\<close>

datatype 'v val = VNone | NotFinished | Data 'v | InProgress ref | Generator

text \<open>
  Modelled from the spec: the class \<open>InProgress\<close> (module \<open>async\<close>) is not among the
  sources. The spec gives a promise the states Pending, Finished(value) and
  Failed(error); a settlement of a promise that is not Pending fails with AlreadySet.
\<close>

datatype 'v pstate = Pending | Finished "'v val" | Failed exn

definition settle :: "'v pstate \<Rightarrow> 'v pstate \<Rightarrow> exn + 'v pstate" where
  "settle new old = (if old = Pending then Inr new else Inl AlreadySet)"

section \<open>thread.py: the main-thread queue and thread jobs\<close>

text \<open>
  A callable together with its arguments, as \<open>MainThreadCallback\<close> wraps it: a user
  function, or the bound methods \<open>finish\<close> and \<open>throw\<close> of a \<open>ThreadInProgress\<close>.
\<close>

datatype ('c, 'v) callable = Func 'c | BoundFinish ref "'v val" | BoundThrow ref exn

text \<open>
  What the model records of the run: a queue entry taken by the drain loop, a user
  function entered, and the warning of \<open>ThreadInProgress.__call__\<close>.
\<close>

datatype ('c, 'v) event =
  Popped "('c, 'v) callable" ref | Entered 'c | WarnedNYI ref

text \<open>
  The module globals of thread.py, the promises, and the \<open>_callback\<close> attribute of
  every \<open>ThreadInProgress\<close>. The pipe is absent, or holds a number of unread bytes.
\<close>

record ('c, 'v) threads =
  t_promises :: "ref \<Rightarrow> 'v pstate"
  t_next :: ref
  thread_notifier_mainthread :: thread
  thread_notifier_queue :: "(('c, 'v) callable \<times> ref) list"
  thread_notifier_pipe :: "nat option"
  job_callback :: "ref \<Rightarrow> 'c option"
  t_trace :: "('c, 'v) event list"

text \<open>The state after the module is imported by thread \<open>mt\<close>.\<close>

definition thread_init :: "thread \<Rightarrow> ('c, 'v) threads" where
  "thread_init mt =
     \<lparr> t_promises = (\<lambda>_. Pending), t_next = 0,
       thread_notifier_mainthread = mt, thread_notifier_queue = [],
       thread_notifier_pipe = None, job_callback = (\<lambda>_. None), t_trace = [] \<rparr>"

text \<open>
  Modelled from the spec: \<^verbatim>\<open>InProgress()\<close> makes a new pending promise, and \<open>finish\<close> and
  \<open>throw\<close> settle it once. Their observers play no part in thread.py and are left
  out here.
\<close>

definition InProgress_new :: "('c, 'v) threads \<Rightarrow> ref \<times> ('c, 'v) threads" where
  "InProgress_new s =
     (t_next s, s\<lparr>t_promises := (t_promises s)(t_next s := Pending), t_next := Suc (t_next s)\<rparr>)"

definition t_finish :: "'v val \<Rightarrow> ref \<Rightarrow> ('c, 'v) threads \<Rightarrow> exn + ('c, 'v) threads" where
  "t_finish v r s =
     (case settle (Finished v) (t_promises s r) of
        Inl e \<Rightarrow> Inl e
      | Inr p \<Rightarrow> Inr (s\<lparr>t_promises := (t_promises s)(r := p)\<rparr>))"

definition t_throw :: "exn \<Rightarrow> ref \<Rightarrow> ('c, 'v) threads \<Rightarrow> exn + ('c, 'v) threads" where
  "t_throw e r s =
     (case settle (Failed e) (t_promises s r) of
        Inl x \<Rightarrow> Inl x
      | Inr p \<Rightarrow> Inr (s\<lparr>t_promises := (t_promises s)(r := p)\<rparr>))"

definition is_mainthread :: "thread \<Rightarrow> ('c, 'v) threads \<Rightarrow> bool" where
  "is_mainthread t s = (t = thread_notifier_mainthread s)"

text \<open>
  \<^verbatim>\<open>Callback.__call__\<close>: the wrapped callable runs. The outcome of a user function is
  given by \<open>call\<close> (its result, or the exception it raises); the bound methods settle
  the promise of their job and return nothing.
\<close>

definition Callback_call ::
  "('c \<Rightarrow> exn + 'v val) \<Rightarrow> ('c, 'v) callable \<Rightarrow> ('c, 'v) threads
     \<Rightarrow> (exn + 'v val) \<times> ('c, 'v) threads" where
  "Callback_call call cb s =
     (case cb of
        Func c \<Rightarrow> (call c, s\<lparr>t_trace := t_trace s @ [Entered c]\<rparr>)
      | BoundFinish r v \<Rightarrow>
          (case t_finish v r s of Inl e \<Rightarrow> (Inl e, s) | Inr s1 \<Rightarrow> (Inr VNone, s1))
      | BoundThrow r e \<Rightarrow>
          (case t_throw e r s of Inl x \<Rightarrow> (Inl x, s) | Inr s1 \<Rightarrow> (Inr VNone, s1)))"

text \<open>
  \<^verbatim>\<open>_thread_notifier_queue_callback\<close>: append the entry; the first entry of an empty
  queue writes one byte to the pipe, when there is one.
\<close>

definition thread_notifier_queue_callback ::
  "('c, 'v) callable \<Rightarrow> ref \<Rightarrow> ('c, 'v) threads \<Rightarrow> ('c, 'v) threads" where
  "thread_notifier_queue_callback cb in_progress s =
     (let q = thread_notifier_queue s @ [(cb, in_progress)]
      in s\<lparr>thread_notifier_queue := q,
            thread_notifier_pipe :=
              (if length q = 1 then map_option Suc (thread_notifier_pipe s)
               else thread_notifier_pipe s)\<rparr>)"

text \<open>
  \<^verbatim>\<open>MainThreadCallback.__call__\<close> on thread \<open>t\<close>. On the main thread the callable runs
  at once: its exception is thrown into the new promise and raised again only when
  fatal. On another thread the callable is queued.
\<close>

definition MainThreadCallback_call ::
  "('c \<Rightarrow> exn + 'v val) \<Rightarrow> ('c, 'v) callable \<Rightarrow> thread \<Rightarrow> ('c, 'v) threads
     \<Rightarrow> (exn + ref) \<times> ('c, 'v) threads" where
  "MainThreadCallback_call call cb t s =
     (let (in_progress, s0) = InProgress_new s in
      if is_mainthread t s0 then
        (case Callback_call call cb s0 of
           (Inl e, s1) \<Rightarrow>
             (case t_throw e in_progress s1 of
                Inl x \<Rightarrow> (Inl x, s1)
              | Inr s2 \<Rightarrow> if fatal e then (Inl e, s2) else (Inr in_progress, s2))
         | (Inr v, s1) \<Rightarrow>
             (case t_finish v in_progress s1 of
                Inl x \<Rightarrow> (Inl x, s1)
              | Inr s2 \<Rightarrow> (Inr in_progress, s2)))
      else (Inr in_progress, thread_notifier_queue_callback cb in_progress s0))"

text \<open>
  One turn of the loop of \<^verbatim>\<open>_thread_notifier_run_queue\<close>, after \<open>pop(0)\<close>. The loop
  runs on the main thread, and the queued callable is the \<open>MainThreadCallback\<close>
  itself, so the call takes the branch of the main thread and returns a promise.
\<close>

definition run_entry ::
  "('c \<Rightarrow> exn + 'v val) \<Rightarrow> ('c, 'v) callable \<Rightarrow> ref \<Rightarrow> ('c, 'v) threads
     \<Rightarrow> (exn + unit) \<times> ('c, 'v) threads" where
  "run_entry call cb in_progress s =
     (case MainThreadCallback_call call cb (thread_notifier_mainthread s)
             (s\<lparr>t_trace := t_trace s @ [Popped cb in_progress]\<rparr>) of
        (Inr r, s1) \<Rightarrow>
          (case t_finish (InProgress r) in_progress s1 of
             Inr s2 \<Rightarrow> (Inr (), s2)
           | Inl x \<Rightarrow>
               (case t_throw x in_progress s1 of
                  Inl y \<Rightarrow> (Inl y, s1)
                | Inr s2 \<Rightarrow> if fatal x then (Inl x, s2) else (Inr (), s2)))
      | (Inl e, s1) \<Rightarrow>
          (case t_throw e in_progress s1 of
             Inl y \<Rightarrow> (Inl y, s1)
           | Inr s2 \<Rightarrow> if fatal e then (Inl e, s2) else (Inr (), s2)))"

lemma queue_t_finish:
  "t_finish v r s = Inr s1 \<Longrightarrow> thread_notifier_queue s1 = thread_notifier_queue s"
  by (auto simp: t_finish_def split: sum.splits)

lemma queue_t_throw:
  "t_throw e r s = Inr s1 \<Longrightarrow> thread_notifier_queue s1 = thread_notifier_queue s"
  by (auto simp: t_throw_def split: sum.splits)

lemma queue_Callback_call:
  "Callback_call call cb s = (r, s1) \<Longrightarrow> thread_notifier_queue s1 = thread_notifier_queue s"
  by (auto simp: Callback_call_def split: callable.splits sum.splits
      dest: queue_t_finish queue_t_throw)

lemma queue_MainThreadCallback_call:
  "MainThreadCallback_call call cb t s = (r, s1) \<Longrightarrow> t = thread_notifier_mainthread s
     \<Longrightarrow> thread_notifier_queue s1 = thread_notifier_queue s"
  by (auto simp: MainThreadCallback_call_def InProgress_new_def is_mainthread_def
      split: prod.splits sum.splits if_splits
      dest!: queue_Callback_call queue_t_finish queue_t_throw)

lemma queue_run_entry:
  "run_entry call cb ip s = (r, s1) \<Longrightarrow> thread_notifier_queue s1 = thread_notifier_queue s"
  unfolding run_entry_def
  by (auto split: prod.splits sum.splits if_splits
      dest!: queue_MainThreadCallback_call dest: queue_t_finish queue_t_throw)

text \<open>
  The loop of \<^verbatim>\<open>_thread_notifier_run_queue\<close>: while the queue is not empty, pop its
  first entry and run it. An exception that leaves \<open>run_entry\<close> leaves the loop.
\<close>

function run_queue_loop ::
  "('c \<Rightarrow> exn + 'v val) \<Rightarrow> ('c, 'v) threads \<Rightarrow> (exn + unit) \<times> ('c, 'v) threads" where
  "run_queue_loop call s =
     (case thread_notifier_queue s of
        [] \<Rightarrow> (Inr (), s)
      | (cb, in_progress) # rest \<Rightarrow>
          (case run_entry call cb in_progress (s\<lparr>thread_notifier_queue := rest\<rparr>) of
             (Inl e, s1) \<Rightarrow> (Inl e, s1)
           | (Inr _, s1) \<Rightarrow> run_queue_loop call s1))"
  by pat_completeness auto
termination
proof (relation "measure (\<lambda>(call, s). length (thread_notifier_queue s))", goal_cases)
  case 1
  show ?case by simp
next
  case (2 call s x21 x22 cb in_progress r s1 u)
  from 2(3) have "run_entry call cb in_progress (s\<lparr>thread_notifier_queue := x22\<rparr>) = (r, s1)"
    by simp
  from queue_run_entry [OF this] 2(1) show ?case by simp
qed

declare run_queue_loop.simps [simp del]

text \<open>
  \<^verbatim>\<open>_thread_notifier_run_queue\<close>: read up to 1000 bytes from the pipe, then drain the
  queue. Without a pipe the subscript of \<open>None\<close> raises.
\<close>

definition thread_notifier_run_queue ::
  "('c \<Rightarrow> exn + 'v val) \<Rightarrow> ('c, 'v) threads \<Rightarrow> (exn + bool) \<times> ('c, 'v) threads" where
  "thread_notifier_run_queue call s =
     (case thread_notifier_pipe s of
        None \<Rightarrow> (Inl TypeError, s)
      | Some n \<Rightarrow>
          (case run_queue_loop call (s\<lparr>thread_notifier_pipe := Some (n - min n 1000)\<rparr>) of
             (Inl e, s1) \<Rightarrow> (Inl e, s1)
           | (Inr _, s1) \<Rightarrow> (Inr True, s1)))"

text \<open>
  \<^verbatim>\<open>create_thread_notifier_pipe(new, purge)\<close>: a new empty pipe; with \<open>purge\<close> the
  queued work is discarded; work that is still queued writes one byte.
\<close>

definition create_thread_notifier_pipe ::
  "bool \<Rightarrow> bool \<Rightarrow> ('c, 'v) threads \<Rightarrow> ('c, 'v) threads" where
  "create_thread_notifier_pipe new purge s =
     (if thread_notifier_pipe s = None \<and> \<not> new then s
      else
        (let q = (if purge then [] else thread_notifier_queue s)
         in s\<lparr>thread_notifier_queue := q,
               thread_notifier_pipe := Some (if q \<noteq> [] then 1 else 0)\<rparr>))"

definition set_as_mainthread :: "thread \<Rightarrow> ('c, 'v) threads \<Rightarrow> ('c, 'v) threads" where
  "set_as_mainthread t s =
     (let s1 = s\<lparr>thread_notifier_mainthread := t\<rparr>
      in if thread_notifier_pipe s1 = None then create_thread_notifier_pipe True False s1
         else s1)"

subsection \<open>ThreadInProgress\<close>

text \<open>
  \<^verbatim>\<open>ThreadInProgress.__call__\<close> of job \<open>j\<close> on thread \<open>t\<close>. Without a callback it
  returns \<open>None\<close> at once. Otherwise the callback runs and its outcome is handed to
  the main thread; the callback is forgotten afterwards.
\<close>

definition ThreadInProgress_call ::
  "('c \<Rightarrow> exn + 'v val) \<Rightarrow> ref \<Rightarrow> thread \<Rightarrow> ('c, 'v) threads
     \<Rightarrow> (exn + 'v val) \<times> ('c, 'v) threads" where
  "ThreadInProgress_call call j t s =
     (case job_callback s j of
        None \<Rightarrow> (Inr VNone, s)
      | Some c \<Rightarrow>
          (let s0 = s\<lparr>t_trace := t_trace s @ [Entered c]\<rparr>;
               (r, s2) =
                 (case call c of
                    Inl e \<Rightarrow> MainThreadCallback_call call (BoundThrow j e) t s0
                  | Inr result \<Rightarrow>
                      MainThreadCallback_call call (BoundFinish j result) t
                        (if (case result of Generator \<Rightarrow> True | InProgress _ \<Rightarrow> True
                             | _ \<Rightarrow> False)
                         then s0\<lparr>t_trace := t_trace s0 @ [WarnedNYI j]\<rparr> else s0))
           in case r of
                Inl x \<Rightarrow> (Inl x, s2)
              | Inr _ \<Rightarrow> (Inr VNone, s2\<lparr>job_callback := (job_callback s2)(j := None)\<rparr>)))"

text \<open>\<^verbatim>\<open>ThreadInProgress.active\<close> and \<^verbatim>\<open>ThreadInProgress.stop\<close>\<close>

definition ThreadInProgress_active :: "ref \<Rightarrow> ('c, 'v) threads \<Rightarrow> bool" where
  "ThreadInProgress_active j s = (job_callback s j \<noteq> None)"

definition ThreadInProgress_stop :: "ref \<Rightarrow> ('c, 'v) threads \<Rightarrow> ('c, 'v) threads" where
  "ThreadInProgress_stop j s = s\<lparr>job_callback := (job_callback s)(j := None)\<rparr>"

subsection \<open>Runs of the queue\<close>

text \<open>
  A run of the queue is a sequence of the three operations that touch it, each atomic
  under \<open>_thread_notifier_lock\<close>.
\<close>

datatype ('c, 'v) qop =
  Enqueue "('c, 'v) callable" ref | Drain | CreatePipe bool bool

fun run_ops ::
  "('c \<Rightarrow> exn + 'v val) \<Rightarrow> ('c, 'v) qop list \<Rightarrow> ('c, 'v) threads \<Rightarrow> ('c, 'v) threads" where
  "run_ops call [] s = s"
| "run_ops call (Enqueue cb ip # ops) s =
     run_ops call ops (thread_notifier_queue_callback cb ip s)"
| "run_ops call (Drain # ops) s = run_ops call ops (snd (thread_notifier_run_queue call s))"
| "run_ops call (CreatePipe new purge # ops) s =
     run_ops call ops (create_thread_notifier_pipe new purge s)"

text \<open>The entries a run enqueues, the entries a trace popped, the functions it entered.\<close>

fun enqueued :: "('c, 'v) qop list \<Rightarrow> (('c, 'v) callable \<times> ref) list" where
  "enqueued [] = []"
| "enqueued (Enqueue cb ip # ops) = (cb, ip) # enqueued ops"
| "enqueued (_ # ops) = enqueued ops"

fun popped :: "('c, 'v) event list \<Rightarrow> (('c, 'v) callable \<times> ref) list" where
  "popped [] = []"
| "popped (Popped cb ip # es) = (cb, ip) # popped es"
| "popped (_ # es) = popped es"

fun entered :: "('c, 'v) event list \<Rightarrow> 'c list" where
  "entered [] = []"
| "entered (Entered c # es) = c # entered es"
| "entered (_ # es) = entered es"

fun funcs :: "(('c, 'v) callable \<times> ref) list \<Rightarrow> 'c list" where
  "funcs [] = []"
| "funcs ((Func c, _) # es) = c # funcs es"
| "funcs (_ # es) = funcs es"

fun purges :: "('c, 'v) qop list \<Rightarrow> bool" where
  "purges [] = False"
| "purges (CreatePipe new purge # ops) = (purge \<or> purges ops)"
| "purges (_ # ops) = purges ops"

text \<open>
  The entries a state has seen: those the drain loop popped so far, then those still
  queued. A trace is paired when the user functions it entered are those of the
  popped entries, in the same order.
\<close>

definition seen :: "('c, 'v) threads \<Rightarrow> (('c, 'v) callable \<times> ref) list" where
  "seen s = popped (t_trace s) @ thread_notifier_queue s"

definition paired :: "('c, 'v) threads \<Rightarrow> bool" where
  "paired s = (entered (t_trace s) = funcs (popped (t_trace s)))"

definition ops0 :: "(nat, nat) qop list" where
  "ops0 = [CreatePipe True False, Enqueue (Func 1) 10, Enqueue (Func 2) 11, Drain,
           Enqueue (Func 3) 12]"

definition job0 :: "(nat, nat) threads" where
  "job0 = (thread_init 0) \<lparr> job_callback := (\<lambda>_. None)(5 := Some 7) \<rparr>"

subsection \<open>Properties of the queue\<close>

lemma popped_append: "popped (xs @ ys) = popped xs @ popped ys"
  by (induction xs rule: popped.induct) auto
lemma entered_append: "entered (xs @ ys) = entered xs @ entered ys"
  by (induction xs rule: entered.induct) auto
lemma funcs_append: "funcs (xs @ ys) = funcs xs @ funcs ys"
  by (induction xs rule: funcs.induct) auto

lemma trace_t_finish: "t_finish v r s = Inr s1 \<Longrightarrow> t_trace s1 = t_trace s"
  by (auto simp: t_finish_def split: sum.splits)
lemma trace_t_throw: "t_throw v r s = Inr s1 \<Longrightarrow> t_trace s1 = t_trace s"
  by (auto simp: t_throw_def split: sum.splits)

lemma trace_Callback_call:
  "Callback_call call cb s = (r, s1) \<Longrightarrow> t_trace s1 = t_trace s @ (case cb of Func c \<Rightarrow> [Entered c] | _ \<Rightarrow> [])"
  by (auto simp: Callback_call_def split: callable.splits sum.splits dest: trace_t_finish trace_t_throw)

lemma trace_MainThreadCallback_call:
  "MainThreadCallback_call call cb t s = (r, s1) \<Longrightarrow> t = thread_notifier_mainthread s
     \<Longrightarrow> t_trace s1 = t_trace s @ (case cb of Func c \<Rightarrow> [Entered c] | _ \<Rightarrow> [])"
  by (auto simp: MainThreadCallback_call_def InProgress_new_def is_mainthread_def
      split: prod.splits sum.splits if_splits
      dest!: trace_Callback_call dest: trace_t_finish trace_t_throw)

lemma trace_run_entry:
  "run_entry call cb ip s = (r, s1) \<Longrightarrow>
     t_trace s1 = t_trace s @ Popped cb ip # (case cb of Func c \<Rightarrow> [Entered c] | _ \<Rightarrow> [])"
  unfolding run_entry_def
  by (auto split: prod.splits sum.splits if_splits
      dest!: trace_MainThreadCallback_call dest: trace_t_finish trace_t_throw)

lemma loop_inv:
  "run_queue_loop call s = (r, s') \<Longrightarrow> seen s' = seen s \<and> (paired s \<longrightarrow> paired s')"
proof (induction call s arbitrary: r s' rule: run_queue_loop.induct)
  case (1 call s)
  show ?case
  proof (cases "thread_notifier_queue s")
    case Nil
    with 1(2) show ?thesis by (subst (asm) run_queue_loop.simps) simp
  next
    case (Cons e rest)
    obtain cb ip where e: "e = (cb, ip)" by (cases e)
    obtain r1 s1 where re: "run_entry call cb ip (s\<lparr>thread_notifier_queue := rest\<rparr>) = (r1, s1)"
      by (cases "run_entry call cb ip (s\<lparr>thread_notifier_queue := rest\<rparr>)")
    have q1: "thread_notifier_queue s1 = rest" using queue_run_entry[OF re] by simp
    have t1: "t_trace s1 = t_trace s @ Popped cb ip # (case cb of Func c \<Rightarrow> [Entered c] | _ \<Rightarrow> [])"
      using trace_run_entry[OF re] by simp
    have step: "seen s1 = seen s"
      using q1 t1 Cons e by (simp add: seen_def popped_append split: callable.splits)
    have step2: "paired s \<Longrightarrow> paired s1"
      using t1 by (simp add: paired_def popped_append entered_append funcs_append split: callable.splits)
    show ?thesis
    proof (cases r1)
      case (Inl x)
      with 1(2) Cons e re have "s' = s1" by (subst (asm) run_queue_loop.simps) simp
      with step step2 show ?thesis by simp
    next
      case (Inr u)
      with 1(2) Cons e re have "run_queue_loop call s1 = (r, s')" by (subst (asm) run_queue_loop.simps) simp
      from 1(1)[OF Cons e[symmetric] re[symmetric] Inr this] step step2 show ?thesis by simp
    qed
  qed
qed

lemma drain_inv:
  assumes "thread_notifier_run_queue call s = (r, s')"
  shows "seen s' = seen s \<and> (paired s \<longrightarrow> paired s')"
proof (cases "thread_notifier_pipe s")
  case None
  with assms show ?thesis by (simp add: thread_notifier_run_queue_def)
next
  case (Some n)
  obtain r1 s1 where l: "run_queue_loop call (s\<lparr>thread_notifier_pipe := Some (n - min n 1000)\<rparr>) = (r1, s1)"
    by (cases "run_queue_loop call (s\<lparr>thread_notifier_pipe := Some (n - min n 1000)\<rparr>)")
  have "s' = s1" using assms Some l by (auto simp: thread_notifier_run_queue_def split: sum.splits)
  with loop_inv[OF l] show ?thesis by (simp add: seen_def paired_def)
qed

lemma run_ops_inv:
  "subseq (seen (run_ops call ops s)) (seen s @ enqueued ops)
   \<and> (\<not> purges ops \<longrightarrow> seen (run_ops call ops s) = seen s @ enqueued ops)
   \<and> (paired s \<longrightarrow> paired (run_ops call ops s))"
proof (induction ops arbitrary: s)
  case Nil
  show ?case by simp
next
  case (Cons op ops)
  show ?case
  proof (cases op)
    case (Enqueue cb ip)
    have "seen (thread_notifier_queue_callback cb ip s) = seen s @ [(cb, ip)]"
      "paired (thread_notifier_queue_callback cb ip s) = paired s"
      by (simp_all add: thread_notifier_queue_callback_def Let_def seen_def paired_def)
    then show ?thesis using Cons[of "thread_notifier_queue_callback cb ip s"] Enqueue
      by simp
  next
    case Drain
    obtain r s1 where d: "thread_notifier_run_queue call s = (r, s1)"
      by (cases "thread_notifier_run_queue call s")
    show ?thesis using Cons[of s1] Drain d drain_inv[OF d] by simp
  next
    case (CreatePipe new purge)
    let ?s1 = "create_thread_notifier_pipe new purge s"
    have p: "paired ?s1 = paired s"
      by (simp add: create_thread_notifier_pipe_def Let_def paired_def)
    have q: "seen ?s1 = seen s \<or> seen ?s1 = popped (t_trace s)"
      by (simp add: create_thread_notifier_pipe_def Let_def seen_def)
    have q': "\<not> purge \<Longrightarrow> seen ?s1 = seen s"
      by (simp add: create_thread_notifier_pipe_def Let_def seen_def)
    have "subseq (seen ?s1) (seen s)"
    proof -
      from q show ?thesis
      proof
        assume "seen ?s1 = seen s" then show ?thesis by simp
      next
        assume a: "seen ?s1 = popped (t_trace s)"
        have "subseq (popped (t_trace s)) (seen s)"
          unfolding seen_def by (rule list_emb_prefix) simp
        with a show ?thesis by simp
      qed
    qed
    then have sub: "subseq (seen ?s1 @ enqueued ops) (seen s @ enqueued ops)"
      by (rule list_emb_append_mono) simp
    from Cons[of ?s1] have "subseq (seen (run_ops call ops ?s1)) (seen ?s1 @ enqueued ops)" by blast
    from subseq_order.trans[OF this sub] Cons[of ?s1] q' p CreatePipe show ?thesis by auto
  qed
qed

lemmas thread_defs =
  thread_init_def create_thread_notifier_pipe_def thread_notifier_queue_callback_def
  thread_notifier_run_queue_def run_entry_def MainThreadCallback_call_def
  InProgress_new_def is_mainthread_def Callback_call_def t_finish_def t_throw_def
  settle_def Let_def run_queue_loop.simps seen_def fatal_def

text \<open>
  Claim C6. From the state of the imported module, after any run of enqueues, drains
  and pipe creations, the entries popped so far followed by the entries still queued
  are a subsequence of the enqueued entries in their order of enqueueing, and are
  exactly the enqueued entries when no purge was requested; the drain loop enters the
  user functions in the order in which it pops their entries. So an entry enqueued
  before another is popped and run before it.
\<close>

theorem wake_queue_fifo:
  "subseq (seen (run_ops call ops (thread_init mt))) (enqueued ops)
   \<and> (\<not> purges ops \<longrightarrow> seen (run_ops call ops (thread_init mt)) = enqueued ops)
   \<and> entered (t_trace (run_ops call ops (thread_init mt)))
       = funcs (popped (t_trace (run_ops call ops (thread_init mt))))"
  using run_ops_inv [of call ops "thread_init mt"]
  by (simp add: thread_init_def seen_def paired_def)

theorem wake_queue_fifo_witness:
  "\<not> purges ops0
   \<and> seen (run_ops (\<lambda>c. Inr (Data c)) ops0 (thread_init 0)) = enqueued ops0
   \<and> entered (t_trace (run_ops (\<lambda>c. Inr (Data c)) ops0 (thread_init 0))) = [1, 2]
   \<and> thread_notifier_queue (run_ops (\<lambda>c. Inr (Data c)) ops0 (thread_init 0))
       = [(Func 3, 12)]"
  using wake_queue_fifo [of "\<lambda>c. Inr (Data c)" ops0 0]
  by (simp add: ops0_def thread_defs)

subsection \<open>Properties of a stopped job\<close>

text \<open>
  Claim C10. After \<open>stop()\<close> on a job, a later execution of the job on any thread
  returns \<open>None\<close> and leaves the whole state as it is: no user callback is entered,
  nothing is queued and no promise is settled, so the promise of the job keeps the
  state it had before \<open>stop()\<close>; \<open>active()\<close> is false after \<open>stop()\<close> and stays false
  over any number of later executions.
\<close>

theorem stopped_job_is_skipped:
  "ThreadInProgress_call call j t (ThreadInProgress_stop j s)
     = (Inr VNone, ThreadInProgress_stop j s)
   \<and> \<not> ThreadInProgress_active j (ThreadInProgress_stop j s)
   \<and> t_promises (ThreadInProgress_stop j s) = t_promises s
   \<and> t_trace (ThreadInProgress_stop j s) = t_trace s
   \<and> thread_notifier_queue (ThreadInProgress_stop j s) = thread_notifier_queue s
   \<and> fold (\<lambda>t s'. snd (ThreadInProgress_call call j t s')) ts (ThreadInProgress_stop j s)
       = ThreadInProgress_stop j s"
proof -
  have 1: "ThreadInProgress_call call j t (ThreadInProgress_stop j s)
             = (Inr VNone, ThreadInProgress_stop j s)" for t
    by (simp add: ThreadInProgress_call_def ThreadInProgress_stop_def)
  have 2: "fold (\<lambda>t s'. snd (ThreadInProgress_call call j t s')) ts (ThreadInProgress_stop j s)
             = ThreadInProgress_stop j s"
    by (induction ts) (simp_all add: 1)
  show ?thesis
    using 1 2 by (simp add: ThreadInProgress_active_def ThreadInProgress_stop_def)
qed

theorem stopped_job_is_skipped_witness:
  "ThreadInProgress_active 5 job0
   \<and> fst (ThreadInProgress_call (\<lambda>c. Inr (Data c)) 5 1 (ThreadInProgress_stop 5 job0))
       = Inr VNone
   \<and> \<not> ThreadInProgress_active 5 (ThreadInProgress_stop 5 job0)
   \<and> t_promises (ThreadInProgress_stop 5 job0) 5 = Pending
   \<and> t_trace (snd (ThreadInProgress_call (\<lambda>c. Inr (Data c)) 5 1 (ThreadInProgress_stop 5 job0)))
       = []
   \<and> t_trace (snd (ThreadInProgress_call (\<lambda>c. Inr (Data c)) 5 1 job0)) = [Entered 7]"
  using stopped_job_is_skipped [of "\<lambda>c. Inr (Data c)" 5 1 job0 "[]"]
  by (simp add: job0_def ThreadInProgress_active_def ThreadInProgress_stop_def
      ThreadInProgress_call_def thread_defs)

section \<open>thread.py: the job server of a named thread\<close>

text \<open>
  A job of a named thread is a \<open>ThreadInProgress\<close> object with a \<open>priority\<close>
  attribute.
\<close>

record job =
  job_ref :: ref
  priority :: int

record jobserver =
  stopped :: bool
  jobs :: "job list"

text \<open>\<^verbatim>\<open>_JobServer.__init__\<close>, \<^verbatim>\<open>stop\<close>, \<^verbatim>\<open>add\<close> and \<^verbatim>\<open>remove\<close>. The sort of \<open>add\<close>
  compares by \<open>-cmp(x.priority, y.priority)\<close>, that is by descending priority;
  Python's list sort is stable, as \<open>sort_key\<close> is.\<close>

definition JobServer_init :: jobserver where
  "JobServer_init = \<lparr> stopped = False, jobs = [] \<rparr>"

definition JobServer_stop :: "jobserver \<Rightarrow> jobserver" where
  "JobServer_stop s = s\<lparr>stopped := True\<rparr>"

definition JobServer_add :: "job \<Rightarrow> jobserver \<Rightarrow> jobserver" where
  "JobServer_add j s = s\<lparr>jobs := sort_key (\<lambda>x. - priority x) (jobs s @ [j])\<rparr>"

definition JobServer_remove :: "job \<Rightarrow> jobserver \<Rightarrow> jobserver" where
  "JobServer_remove j s = (if j \<in> set (jobs s) then s\<lparr>jobs := remove1 j (jobs s)\<rparr> else s)"

text \<open>
  One turn of the loop of \<^verbatim>\<open>_JobServer.run\<close>, under the condition's lock: the
  loop ends when the server is stopped, waits when there is no job, and otherwise
  pops the first job, which it then calls.
\<close>

datatype turn = Exits | Waits | Runs job

definition JobServer_run_turn :: "jobserver \<Rightarrow> turn \<times> jobserver" where
  "JobServer_run_turn s =
     (if stopped s then (Exits, s)
      else case jobs s of
             [] \<Rightarrow> (Waits, s)
           | j # rest \<Rightarrow> (Runs j, s\<lparr>jobs := rest\<rparr>))"

text \<open>
  A run of a server: the operations that touch its job list, each atomic under the
  lock of the condition.
\<close>

datatype jop = Add job | Remove job | Turn | Stop

fun serve_op :: "jop \<Rightarrow> jobserver \<Rightarrow> jobserver" where
  "serve_op (Add j) s = JobServer_add j s"
| "serve_op (Remove j) s = JobServer_remove j s"
| "serve_op Turn s = snd (JobServer_run_turn s)"
| "serve_op Stop s = JobServer_stop s"

definition served :: "jop list \<Rightarrow> jobserver" where
  "served ops = fold serve_op ops JobServer_init"

text \<open>The jobs a run submits, in the order of submission.\<close>

fun added :: "jop list \<Rightarrow> job list" where
  "added [] = []"
| "added (Add j # ops) = j # added ops"
| "added (_ # ops) = added ops"

text \<open>\<open>precedes a b xs\<close>: \<open>b\<close> stands behind the first \<open>a\<close> of \<open>xs\<close>.\<close>

fun precedes :: "'a \<Rightarrow> 'a \<Rightarrow> 'a list \<Rightarrow> bool" where
  "precedes a b [] = False"
| "precedes a b (x # xs) = (if x = a then b \<in> set xs else precedes a b xs)"

definition pool0 :: "jop list" where
  "pool0 = [Add \<lparr>job_ref = 1, priority = 0\<rparr>, Add \<lparr>job_ref = 2, priority = 5\<rparr>,
            Add \<lparr>job_ref = 3, priority = 5\<rparr>, Turn, Add \<lparr>job_ref = 4, priority = 0\<rparr>,
            Add \<lparr>job_ref = 6, priority = 5\<rparr>]"

subsection \<open>Properties of the job list\<close>

lemma added_append: "added (xs @ ys) = added xs @ added ys"
  by (induction xs rule: added.induct) auto

lemma precedes_mem: "precedes a b xs \<Longrightarrow> a \<in> set xs \<and> b \<in> set xs"
  by (induction xs) (auto split: if_splits)

lemma precedes_filter: "precedes a b (filter P xs) \<Longrightarrow> precedes a b xs"
proof (induction xs)
  case Nil
  then show ?case by simp
next
  case (Cons x xs)
  show ?case
  proof (cases "x = a")
    case True
    with Cons.prems precedes_mem [of a b "filter P xs"] show ?thesis
      by (auto split: if_splits)
  next
    case False
    with Cons show ?thesis by (auto split: if_splits)
  qed
qed

lemma filter_neq_absent: "j \<notin> set xs \<Longrightarrow> filter (\<lambda>x. x \<noteq> j) xs = xs"
  by (induction xs) auto

lemma remove1_distinct_filter: "distinct xs \<Longrightarrow> remove1 j xs = filter (\<lambda>x. x \<noteq> j) xs"
  by (induction xs) (auto simp: filter_neq_absent)

text \<open>
  The invariant of the job list against the submissions: sorted by descending
  priority, without duplicates, and within one priority in the order of submission.
\<close>

definition queue_ok :: "job list \<Rightarrow> job list \<Rightarrow> bool" where
  "queue_ok js subs = (sorted (map (\<lambda>x. - priority x) js) \<and> distinct js \<and> set js \<subseteq> set subs
     \<and> (\<forall>k. filter (\<lambda>x. priority x = k) js = filter (\<lambda>x. priority x = k \<and> x \<in> set js) subs))"

lemma queue_ok_remove:
  assumes "queue_ok js subs" shows "queue_ok (remove1 j js) subs"
proof -
  from assms have d: "distinct js" by (simp add: queue_ok_def)
  have r: "remove1 j js = filter (\<lambda>x. x \<noteq> j) js" using d by (rule remove1_distinct_filter)
  have s: "sorted (map (\<lambda>x. - priority x) (filter (\<lambda>x. x \<noteq> j) js))"
    using assms by (simp add: queue_ok_def sorted_map sorted_wrt_filter)
  have f: "filter (\<lambda>x. priority x = k) (filter (\<lambda>x. x \<noteq> j) js)
       = filter (\<lambda>x. priority x = k \<and> x \<in> set (filter (\<lambda>x. x \<noteq> j) js)) subs" for k
  proof -
    from assms have "filter (\<lambda>x. priority x = k) js = filter (\<lambda>x. priority x = k \<and> x \<in> set js) subs"
      by (simp add: queue_ok_def)
    then have "filter (\<lambda>x. x \<noteq> j) (filter (\<lambda>x. priority x = k) js) = filter (\<lambda>x. x \<noteq> j) (filter (\<lambda>x. priority x = k \<and> x \<in> set js) subs)"
      by simp
    then show ?thesis by (simp add: conj_commute conj_left_commute cong: conj_cong)
  qed
  show ?thesis unfolding r queue_ok_def using s f d assms by (auto simp: queue_ok_def)
qed

lemma queue_ok_add:
  assumes "queue_ok js subs" "j \<notin> set subs"
  shows "queue_ok (sort_key (\<lambda>x. - priority x) (js @ [j])) (subs @ [j])"
proof -
  have jn: "j \<notin> set js" using assms by (auto simp: queue_ok_def)
  have f: "filter (\<lambda>x. priority x = k) (sort_key (\<lambda>x. - priority x) (js @ [j]))
       = filter (\<lambda>x. priority x = k \<and> x \<in> set (sort_key (\<lambda>x. - priority x) (js @ [j]))) (subs @ [j])" for k
  proof -
    have "filter (\<lambda>x. priority x = k) (sort_key (\<lambda>x. - priority x) (js @ [j]))
        = filter (\<lambda>x. - priority x = - k) (sort_key (\<lambda>x. - priority x) (js @ [j]))" by simp
    also have "\<dots> = filter (\<lambda>x. - priority x = - k) (js @ [j])" by (rule sort_key_stable)
    also have "\<dots> = filter (\<lambda>x. priority x = k) js @ filter (\<lambda>x. priority x = k) [j]" by simp
    also have "filter (\<lambda>x. priority x = k) js = filter (\<lambda>x. priority x = k \<and> x \<in> set js) subs"
      using assms by (simp add: queue_ok_def)
    also have "\<dots> = filter (\<lambda>x. priority x = k \<and> (x \<in> set js \<or> x = j)) subs"
      using assms(2) by (intro filter_cong) auto
    finally show ?thesis by (auto simp: disj_commute)
  qed
  show ?thesis unfolding queue_ok_def using assms jn f by (auto simp: queue_ok_def sorted_sort_key)
qed

lemma served_snoc: "served (ops @ [op]) = serve_op op (served ops)"
  by (simp add: served_def)

lemma turn_jobs:
  "jobs (snd (JobServer_run_turn s)) = jobs s \<or> jobs (snd (JobServer_run_turn s)) = remove1 (hd (jobs s)) (jobs s)"
  by (auto simp: JobServer_run_turn_def split: list.splits)

lemma served_queue_ok: "distinct (added ops) \<Longrightarrow> queue_ok (jobs (served ops)) (added ops)"
proof (induction ops rule: rev_induct)
  case Nil
  show ?case by (simp add: served_def JobServer_init_def queue_ok_def)
next
  case (snoc op ops)
  from snoc.prems have d: "distinct (added ops)" by (simp add: added_append)
  note IH = snoc.IH [OF d]
  show ?case
  proof (cases op)
    case (Add j)
    with snoc.prems have "j \<notin> set (added ops)" by (simp add: added_append)
    from queue_ok_add [OF IH this] Add show ?thesis
      by (simp add: served_snoc added_append JobServer_add_def)
  next
    case (Remove j)
    with IH queue_ok_remove [OF IH, of j] show ?thesis
      by (simp add: served_snoc added_append JobServer_remove_def)
  next
    case Turn
    with IH queue_ok_remove [OF IH, of "hd (jobs (served ops))"] turn_jobs [of "served ops"]
    show ?thesis by (auto simp: served_snoc added_append)
  next
    case Stop
    with IH show ?thesis by (simp add: served_snoc added_append JobServer_stop_def)
  qed
qed

text \<open>
  Claim C7. In any run of a job server whose submitted jobs are distinct objects,
  whenever a turn of the worker loop pops and runs a job, that job is the head of the
  job list, no queued job has a higher priority, and every queued job of the same
  priority was submitted after it.
\<close>

theorem worker_runs_highest_priority_first:
  assumes "distinct (map job_ref (added ops))"
    and "JobServer_run_turn (served ops) = (Runs j, s')"
  shows "jobs (served ops) = j # jobs s'
     \<and> (\<forall>j' \<in> set (jobs s'). priority j' \<le> priority j
           \<and> (priority j' = priority j \<longrightarrow> precedes j j' (added ops)))"
proof -
  from assms(1) have "distinct (added ops)" by (simp add: distinct_map)
  from served_queue_ok [OF this] have I: "queue_ok (jobs (served ops)) (added ops)" .
  from assms(2) have js: "jobs (served ops) = j # jobs s'"
    by (auto simp: JobServer_run_turn_def split: if_splits list.splits)
  have "priority j' \<le> priority j \<and> (priority j' = priority j \<longrightarrow> precedes j j' (added ops))"
    if m: "j' \<in> set (jobs s')" for j'
  proof
    from I js m show "priority j' \<le> priority j" by (auto simp: queue_ok_def)
    show "priority j' = priority j \<longrightarrow> precedes j j' (added ops)"
    proof
      assume e: "priority j' = priority j"
      let ?k = "priority j"
      from I have "filter (\<lambda>x. priority x = ?k) (jobs (served ops))
          = filter (\<lambda>x. priority x = ?k \<and> x \<in> set (jobs (served ops))) (added ops)"
        by (simp add: queue_ok_def)
      then have "j # filter (\<lambda>x. priority x = ?k) (jobs s')
          = filter (\<lambda>x. priority x = ?k \<and> x \<in> set (jobs (served ops))) (added ops)"
        by (simp add: js)
      moreover have "precedes j j' (j # filter (\<lambda>x. priority x = ?k) (jobs s'))"
        using m e by simp
      ultimately have "precedes j j' (filter (\<lambda>x. priority x = ?k \<and> x \<in> set (jobs (served ops))) (added ops))"
        by simp
      then show "precedes j j' (added ops)" by (rule precedes_filter)
    qed
  qed
  with js show ?thesis by blast
qed

theorem worker_runs_highest_priority_first_witness:
  "distinct (map job_ref (added pool0))
   \<and> JobServer_run_turn (served pool0)
       = (Runs \<lparr>job_ref = 3, priority = 5\<rparr>,
          \<lparr>stopped = False,
           jobs = [\<lparr>job_ref = 6, priority = 5\<rparr>, \<lparr>job_ref = 1, priority = 0\<rparr>,
                   \<lparr>job_ref = 4, priority = 0\<rparr>]\<rparr>)
   \<and> precedes \<lparr>job_ref = 3, priority = 5\<rparr> \<lparr>job_ref = 6, priority = 5\<rparr> (added pool0)"
  using worker_runs_highest_priority_first [of pool0 "\<lparr>job_ref = 3, priority = 5\<rparr>"
      "\<lparr>stopped = False,
           jobs = [\<lparr>job_ref = 6, priority = 5\<rparr>, \<lparr>job_ref = 1, priority = 0\<rparr>,
                   \<lparr>job_ref = 4, priority = 0\<rparr>]\<rparr>"]
  by (simp add: pool0_def served_def JobServer_init_def JobServer_add_def JobServer_run_turn_def)

section \<open>thread.py: synchronized\<close>

text \<open>
  The locks of Python's threading module: \<open>RLock\<close> counts the acquisitions of its
  owner; the plain lock (\<open>LockType\<close>) blocks every acquisition while it is held,
  also one by the thread that holds it. A blocked acquisition is \<open>None\<close>.
\<close>

datatype lock_kind = RLock | PlainLock

record lock =
  kind :: lock_kind
  owner :: "thread option"
  depth :: nat

definition acquire :: "thread \<Rightarrow> lock \<Rightarrow> lock option" where
  "acquire t l =
     (case owner l of
        None \<Rightarrow> Some (l\<lparr>owner := Some t, depth := 1\<rparr>)
      | Some u \<Rightarrow>
          if kind l = RLock \<and> u = t then Some (l\<lparr>depth := Suc (depth l)\<rparr>) else None)"

definition release :: "thread \<Rightarrow> lock \<Rightarrow> exn + lock" where
  "release t l =
     (case owner l of
        None \<Rightarrow> Inl RuntimeError
      | Some u \<Rightarrow>
          if kind l = PlainLock then Inr (l\<lparr>owner := None, depth := 0\<rparr>)
          else if u \<noteq> t then Inl RuntimeError
          else if depth l \<le> 1 then Inr (l\<lparr>owner := None, depth := 0\<rparr>)
          else Inr (l\<lparr>depth := depth l - 1\<rparr>))"

text \<open>
  The lock objects, the hidden attribute \<open>_kaa_synchronized_lock\<close> of every object, and
  the entry \<open>synchronized_lock\<close> of the decorator's data store under every key.
  Not every Python object takes a new attribute (an instance of \<open>object\<close>, a number, a
  string or a tuple raises \<open>AttributeError\<close> on the assignment); \<open>takes_attribute\<close>
  tells which objects do.

  Modelled from the spec: \<open>DecoratorDataStore\<close> (module \<open>utils\<close>) is not among the
  sources; the spec attaches the lock to the data store of the function under the
  key of the arguments.
\<close>

record 'k sync_world =
  locks :: "ref \<Rightarrow> lock"
  kaa_synchronized_lock :: "ref \<Rightarrow> ref option"
  takes_attribute :: "ref \<Rightarrow> bool"
  store_synchronized_lock :: "'k \<Rightarrow> ref option"
  next_lock :: ref

definition RLock_new :: "'k sync_world \<Rightarrow> ref \<times> 'k sync_world" where
  "RLock_new w =
     (next_lock w,
      w\<lparr>locks := (locks w)(next_lock w := \<lparr>kind = RLock, owner = None, depth = 0\<rparr>),
        next_lock := Suc (next_lock w)\<rparr>)"

text \<open>
  The argument of \<^verbatim>\<open>synchronized.__init__(obj)\<close>: no object, a lock of either kind
  (\<open>isinstance(obj, (threading._RLock, LockType))\<close>), or any other object.
\<close>

datatype sync_arg = NoObject | ALock ref | AnObject ref

text \<open>
  \<^verbatim>\<open>synchronized.__init__(obj)\<close>. The result is the attribute \<open>_lock\<close> of the new
  decorator. For an object without the hidden attribute a new \<open>RLock\<close> is made and then
  assigned to the attribute, which raises \<open>AttributeError\<close> when the object takes no
  attribute.
\<close>

definition synchronized_init ::
  "sync_arg \<Rightarrow> 'k sync_world \<Rightarrow> (exn + ref option) \<times> 'k sync_world" where
  "synchronized_init obj w =
     (case obj of
        NoObject \<Rightarrow> (Inr None, w)
      | ALock l \<Rightarrow> (Inr (Some l), w)
      | AnObject ob \<Rightarrow>
          (case kaa_synchronized_lock w ob of
             Some l \<Rightarrow> (Inr (Some l), w)
           | None \<Rightarrow>
               (let (l, w1) = RLock_new w
                in if takes_attribute w1 ob
                   then (Inr (Some l),
                         w1\<lparr>kaa_synchronized_lock := (kaa_synchronized_lock w1)(ob := Some l)\<rparr>)
                   else (Inl AttributeError, w1))))"

text \<open>\<^verbatim>\<open>__enter__\<close> and \<^verbatim>\<open>__exit__\<close> on thread \<open>t\<close>.\<close>

definition synchronized_enter ::
  "ref option \<Rightarrow> thread \<Rightarrow> 'k sync_world \<Rightarrow> ((exn + ref) \<times> 'k sync_world) option" where
  "synchronized_enter self t w =
     (case self of
        None \<Rightarrow> Some (Inl RuntimeError, w)
      | Some l \<Rightarrow>
          (case acquire t (locks w l) of
             None \<Rightarrow> None
           | Some a \<Rightarrow> Some (Inr l, w\<lparr>locks := (locks w)(l := a)\<rparr>)))"

definition synchronized_exit ::
  "ref option \<Rightarrow> thread \<Rightarrow> 'k sync_world \<Rightarrow> (exn + bool) \<times> 'k sync_world" where
  "synchronized_exit self t w =
     (case self of
        None \<Rightarrow> (Inl AttributeError, w)
      | Some l \<Rightarrow>
          (case release t (locks w l) of
             Inl e \<Rightarrow> (Inl e, w)
           | Inr b \<Rightarrow> (Inr False, w\<lparr>locks := (locks w)(l := b)\<rparr>)))"

text \<open>
  The lock that \<open>call\<close> takes: the lock of the decorator, or the lock of the data
  store under the key of the arguments, created on first use.
\<close>

definition call_lock :: "ref option \<Rightarrow> 'k \<Rightarrow> 'k sync_world \<Rightarrow> ref \<times> 'k sync_world" where
  "call_lock self k w =
     (case self of
        Some l \<Rightarrow> (l, w)
      | None \<Rightarrow>
          (case store_synchronized_lock w k of
             Some l \<Rightarrow> (l, w)
           | None \<Rightarrow>
               (let (l, w1) = RLock_new w
                in (l, w1\<lparr>store_synchronized_lock := (store_synchronized_lock w1)(k := Some l)\<rparr>))))"

text \<open>
  \<^verbatim>\<open>synchronized.__call__\<close>: the wrapped function runs between \<open>acquire\<close> and
  \<open>release\<close>. The function is given by its effect on the locks; \<open>None\<close> is a call
  that never returns.
\<close>

definition synchronized_call ::
  "ref option \<Rightarrow> 'k \<Rightarrow> thread \<Rightarrow> ('k sync_world \<Rightarrow> ((exn + 'r) \<times> 'k sync_world) option)
     \<Rightarrow> 'k sync_world \<Rightarrow> ((exn + 'r) \<times> 'k sync_world) option" where
  "synchronized_call self k t func w =
     (let (l, w1) = call_lock self k w in
      case acquire t (locks w1 l) of
        None \<Rightarrow> None
      | Some a \<Rightarrow>
          (case func (w1\<lparr>locks := (locks w1)(l := a)\<rparr>) of
             None \<Rightarrow> None
           | Some (r, w2) \<Rightarrow>
               (case release t (locks w2 l) of
                  Inl e \<Rightarrow> Some (Inl e, w2)
                | Inr b \<Rightarrow> Some (r, w2\<lparr>locks := (locks w2)(l := b)\<rparr>))))"

text \<open>
  A state for concrete runs: object 0 is a plain lock, object 9 takes no attribute, and
  no lock has been attached yet.
\<close>

definition sync0 :: "nat sync_world" where
  "sync0 = \<lparr> locks = (\<lambda>_. \<lparr>kind = PlainLock, owner = None, depth = 0\<rparr>),
             kaa_synchronized_lock = (\<lambda>_. None), takes_attribute = (\<lambda>ob. ob \<noteq> 9),
             store_synchronized_lock = (\<lambda>_. None), next_lock = 1 \<rparr>"

lemmas sync_defs = synchronized_init_def synchronized_enter_def synchronized_exit_def call_lock_def
  synchronized_call_def RLock_new_def acquire_def release_def sync0_def Let_def

text \<open>
  Claim C8, as stated, fails: a plain lock supplied at construction is accepted and
  guards the wrapped function, and a nested call by the thread that holds it never
  returns.
\<close>

theorem supplied_lock_not_reentrant:
  "fst (synchronized_init (ALock 0) sync0) = Inr (Some 0)
   \<and> kind (locks (snd (synchronized_init (ALock 0) sync0)) 0) = PlainLock
   \<and> map_option fst (synchronized_call (Some 0) 0 1 (\<lambda>w. Some (Inr (Data (7::nat)), w)) sync0)
       = Some (Inr (Data 7))
   \<and> synchronized_call (Some 0) 0 1
        (synchronized_call (Some 0) 0 1 (\<lambda>w. Some (Inr (Data (7::nat)), w))) sync0 = None"
  by (simp add: sync_defs)

text \<open>
  Claim C8, amended. A lock supplied at construction is used as it is, of whatever
  kind. For an object without the hidden attribute \<open>synchronized\<close> creates a lock of
  kind \<open>RLock\<close> and attaches it, when the object takes the attribute; when it does
  not, the construction raises \<open>AttributeError\<close> and no decorator exists. For an object
  that has the hidden attribute, its value is used as it is. The lock that the call
  creates in the data store on first use is of kind \<open>RLock\<close>. A thread that holds an
  \<open>RLock\<close> acquires it again without blocking.
\<close>

theorem synchronized_locks:
  "fst (synchronized_init (ALock l) w) = Inr (Some l)
   \<and> locks (snd (synchronized_init (ALock l) w)) = locks w
   \<and> (kaa_synchronized_lock w ob = None \<and> takes_attribute w ob \<longrightarrow>
        fst (synchronized_init (AnObject ob) w) = Inr (Some (next_lock w))
        \<and> kaa_synchronized_lock (snd (synchronized_init (AnObject ob) w)) ob = Some (next_lock w)
        \<and> kind (locks (snd (synchronized_init (AnObject ob) w)) (next_lock w)) = RLock)
   \<and> (kaa_synchronized_lock w ob = None \<and> \<not> takes_attribute w ob \<longrightarrow>
        fst (synchronized_init (AnObject ob) w) = Inl AttributeError
        \<and> kaa_synchronized_lock (snd (synchronized_init (AnObject ob) w)) = kaa_synchronized_lock w)
   \<and> (kaa_synchronized_lock w ob = Some l' \<longrightarrow>
        synchronized_init (AnObject ob) w = (Inr (Some l'), w))
   \<and> (store_synchronized_lock w k = None \<longrightarrow>
        fst (call_lock None k w) = next_lock w
        \<and> kind (locks (snd (call_lock None k w)) (next_lock w)) = RLock)
   \<and> (kind lk = RLock \<and> acquire t lk = Some lk1 \<longrightarrow> acquire t lk1 \<noteq> None)"
  by (auto simp: sync_defs split: option.splits if_splits)

theorem synchronized_locks_witness:
  "kaa_synchronized_lock sync0 3 = None \<and> takes_attribute sync0 3
   \<and> fst (synchronized_init (AnObject 3) sync0) = Inr (Some 1)
   \<and> kind (locks (snd (synchronized_init (AnObject 3) sync0)) 1) = RLock
   \<and> kaa_synchronized_lock sync0 9 = None \<and> \<not> takes_attribute sync0 9
   \<and> fst (synchronized_init (AnObject 9) sync0) = Inl AttributeError
   \<and> synchronized_init (AnObject 3) (snd (synchronized_init (AnObject 3) sync0))
       = (Inr (Some 1), snd (synchronized_init (AnObject 3) sync0))
   \<and> store_synchronized_lock sync0 0 = None
   \<and> kind (locks (snd (call_lock None 0 sync0)) 1) = RLock
   \<and> acquire 1 \<lparr>kind = RLock, owner = None, depth = 0\<rparr>
       = Some \<lparr>kind = RLock, owner = Some 1, depth = 1\<rparr>
   \<and> acquire 1 \<lparr>kind = RLock, owner = Some 1, depth = 1\<rparr> \<noteq> None
   \<and> map_option fst (synchronized_call None 0 1
         (synchronized_call None 0 1 (\<lambda>w. Some (Inr (Data (7::nat)), w))) sync0)
       = Some (Inr (Data 7))"
proof -
  note fresh = synchronized_locks [where w = sync0 and ob = 3 and k = 0 and t = 1
      and lk = "\<lparr>kind = RLock, owner = None, depth = 0\<rparr>"
      and ?lk1.0 = "\<lparr>kind = RLock, owner = Some 1, depth = 1\<rparr>"]
  note refused = synchronized_locks [where w = sync0 and ob = 9]
  note again = synchronized_locks [where w = "snd (synchronized_init (AnObject 3) sync0)"
      and ob = 3 and ?l'.0 = 1]
  from fresh refused again show ?thesis by (simp add: sync_defs)
qed

section \<open>coroutine.py: the task engine\<close>

text \<open>
  The policy constants of the decorator \<open>coroutine\<close>.
\<close>

datatype policy = POLICY_SYNCHRONIZED | POLICY_SINGLETON | POLICY_PASS_LAST

text \<open>
  The callables that the engine connects to the signals of a promise:
  \<^verbatim>\<open>CoroutineInProgress._continue\<close> of a task, the handler \<open>cb\<close> that \<open>wrap\<close> attaches
  (it removes the object from the \<open>last\<close> list of its key),
  \<^verbatim>\<open>CoroutineLockedInProgress._try_again\<close> of a locked task, and a callable of user
  code, which the model only records as called.
\<close>

datatype 'k observer = Continue ref | RemoveLast 'k ref | TryAgain ref | UserObserver nat

text \<open>
  The keyword argument \<open>last\<close> of the decorated function: not passed, \<open>None\<close>, or a
  \<open>CoroutineInProgress\<close>.
\<close>

datatype last_kw = NoLast | LastNone | LastTask ref

text \<open>
  What the model records of a run: the decorated function entered (with the flag of a
  prepended progress object, its arguments and its \<open>last\<close> argument), \<open>close()\<close> called
  on the generator of a task, the warning for a generator that ignored
  \<open>GeneratorExit\<close>, and a callable of user code called by the signal of a promise.
\<close>

datatype 'a cevent =
  Invoked bool 'a last_kw | Closed ref | WarnedIgnored ref | Notified nat ref

text \<open>
  Modelled from the spec: the class \<open>InProgress\<close> (module \<open>async\<close>) is not among the
  sources. A promise has its state, the ordered observers of its value and of its
  error (the signal of the object and its signal \<open>exception\<close>), the marker of an
  unhandled failure, and the attribute \<open>progress\<close> that \<open>wrap\<close> sets.
\<close>

record ('v, 'k) ip =
  ip_state :: "'v pstate"
  ip_signal :: "'k observer list"
  ip_exception :: "'k observer list"
  ip_unhandled :: bool
  ip_progress :: bool

text \<open>
  The attributes that \<^verbatim>\<open>CoroutineInProgress.__init__\<close> adds to a promise. The generator
  is known by its state; \<open>timer\<close> tells whether \<open>_timer\<close> still refers to the timer
  object, and \<open>timer_active\<close> is the delay that object is scheduled with, if any.

  Modelled from the spec: the class \<open>Timer\<close> is not among the sources; the spec gives it
  \<open>start(d)\<close>, which replaces any schedule, \<open>stop()\<close> and \<open>active()\<close>.
\<close>

record 'g task =
  coroutine :: "'g option"
  timer :: bool
  timer_active :: "nat option"
  interval :: nat
  prerequisite_ip :: "ref option"

text \<open>
  All objects of a run: every promise, the tasks among them
  (\<open>isinstance(x, CoroutineInProgress)\<close> is \<open>tasks s x \<noteq> None\<close>), the module's set
  \<open>_active_coroutines\<close>, and for the one decorated function under study the \<open>last\<close>
  list of every key, its attribute \<open>_lock\<close>, and the record of the run.

  Modelled from the spec: \<open>DecoratorDataStore\<close> (module \<open>utils\<close>) is not among the
  sources; the spec keys the policy slot by the function and a selector of the
  arguments. An absent entry \<open>last\<close> and an empty list are the same here, as the code
  creates the empty list on first use.
\<close>

record ('g, 'v, 'k, 'a) world =
  promises :: "ref \<Rightarrow> ('v, 'k) ip"
  tasks :: "ref \<Rightarrow> 'g task option"
  active_coroutines :: "ref set"
  store_last :: "'k \<Rightarrow> ref list"
  func_lock :: "ref option"
  history :: "'a cevent list"

text \<open>
  What resumes a generator: \<open>next()\<close>, \<open>send(value)\<close> or \<open>throw(error)\<close>.
\<close>

datatype 'v inject = Next | Send "'v val" | Throw exn

text \<open>
  What a resumed generator does: it yields a value, it ends (\<open>StopIteration\<close>), or it
  raises.
\<close>

datatype 'v outcome = Yield "'v val" | StopIteration | Raise exn

text \<open>
  Modelled from the spec: \<open>finished\<close> and \<open>is_finished()\<close>, the attributes \<open>_exception\<close> and
  \<open>_result\<close> of a promise.
\<close>

definition is_finished :: "('v, 'k) ip \<Rightarrow> bool" where
  "is_finished p = (ip_state p \<noteq> Pending)"

definition exception_of :: "('v, 'k) ip \<Rightarrow> exn option" where
  "exception_of p = (case ip_state p of Failed e \<Rightarrow> Some e | _ \<Rightarrow> None)"

definition result_of :: "('v, 'k) ip \<Rightarrow> 'v val" where
  "result_of p = (case ip_state p of Finished v \<Rightarrow> v | _ \<Rightarrow> VNone)"

text \<open>
  Assignment to the attributes of one promise, of one task, and a new entry of the
  record.
\<close>

definition upd_ip ::
  "ref \<Rightarrow> (('v, 'k) ip \<Rightarrow> ('v, 'k) ip) \<Rightarrow> ('g, 'v, 'k, 'a) world \<Rightarrow> ('g, 'v, 'k, 'a) world" where
  "upd_ip r f s = s\<lparr>promises := (promises s)(r := f (promises s r))\<rparr>"

definition upd_task ::
  "ref \<Rightarrow> ('g task \<Rightarrow> 'g task) \<Rightarrow> ('g, 'v, 'k, 'a) world \<Rightarrow> ('g, 'v, 'k, 'a) world" where
  "upd_task t f s = s\<lparr>tasks := (tasks s)(t := map_option f (tasks s t))\<rparr>"

definition emit :: "'a cevent \<Rightarrow> ('g, 'v, 'k, 'a) world \<Rightarrow> ('g, 'v, 'k, 'a) world" where
  "emit e s = s\<lparr>history := history s @ [e]\<rparr>"

text \<open>
  \<^verbatim>\<open>CoroutineInProgress._continue\<close>: restart the timer with the interval of the task,
  if the task still has its timer.
\<close>

definition continue :: "ref \<Rightarrow> ('g, 'v, 'k, 'a) world \<Rightarrow> ('g, 'v, 'k, 'a) world" where
  "continue t s =
     (case tasks s t of
        None \<Rightarrow> s
      | Some T \<Rightarrow> if timer T then upd_task t (\<lambda>T. T\<lparr>timer_active := Some (interval T)\<rparr>) s else s)"

text \<open>
  Modelled from the spec: an observer connected to both signals of a promise that is
  not terminal is appended to both.
\<close>

definition connect_pending ::
  "ref \<Rightarrow> 'k observer \<Rightarrow> ('g, 'v, 'k, 'a) world \<Rightarrow> ('g, 'v, 'k, 'a) world" where
  "connect_pending r ob s =
     upd_ip r (\<lambda>p. p\<lparr>ip_signal := ip_signal p @ [ob], ip_exception := ip_exception p @ [ob]\<rparr>) s"

text \<open>
  \<^verbatim>\<open>CoroutineLockedInProgress._try_again\<close>: wait again when the lock is held by an
  unfinished task; otherwise take the lock and continue.
\<close>

definition try_again :: "ref \<Rightarrow> ('g, 'v, 'k, 'a) world \<Rightarrow> ('g, 'v, 'k, 'a) world" where
  "try_again t s =
     (case func_lock s of
        None \<Rightarrow> s
      | Some l \<Rightarrow>
          if \<not> is_finished (promises s l) then connect_pending l (TryAgain t) s
          else continue t (s\<lparr>func_lock := Some t\<rparr>))"

text \<open>
  One observer called by the signal of promise \<open>src\<close>. The handler \<open>cb\<close> of \<open>wrap\<close>
  removes its object from the list (\<open>last.remove(obj)\<close>; on a list without the object
  the error stays inside the observer).
\<close>

definition notify ::
  "ref \<Rightarrow> 'k observer \<Rightarrow> ('g, 'v, 'k, 'a) world \<Rightarrow> ('g, 'v, 'k, 'a) world" where
  "notify src ob s =
     (case ob of
        Continue t \<Rightarrow> continue t s
      | RemoveLast k r \<Rightarrow> s\<lparr>store_last := (store_last s)(k := remove1 r (store_last s k))\<rparr>
      | TryAgain t \<Rightarrow> try_again t s
      | UserObserver n \<Rightarrow> emit (Notified n src) s)"

text \<open>
  Modelled from the spec: \<open>finish(value)\<close> and \<open>throw(error)\<close> of \<open>InProgress\<close>. A promise
  that is Pending becomes terminal and its observers are called in the order of
  registration; a promise that is terminal fails with AlreadySet. A failure counts as
  unhandled when it has no error observer.
\<close>

definition InProgress_finish ::
  "'v val \<Rightarrow> ref \<Rightarrow> ('g, 'v, 'k, 'a) world \<Rightarrow> exn + ('g, 'v, 'k, 'a) world" where
  "InProgress_finish v r s =
     (case settle (Finished v) (ip_state (promises s r)) of
        Inl e \<Rightarrow> Inl e
      | Inr st \<Rightarrow>
          Inr (fold (notify r) (ip_signal (promises s r)) (upd_ip r (\<lambda>p. p\<lparr>ip_state := st\<rparr>) s)))"

definition InProgress_throw ::
  "exn \<Rightarrow> ref \<Rightarrow> ('g, 'v, 'k, 'a) world \<Rightarrow> exn + ('g, 'v, 'k, 'a) world" where
  "InProgress_throw e r s =
     (case settle (Failed e) (ip_state (promises s r)) of
        Inl x \<Rightarrow> Inl x
      | Inr st \<Rightarrow>
          Inr (fold (notify r) (ip_exception (promises s r))
                 (upd_ip r (\<lambda>p. p\<lparr>ip_state := st, ip_unhandled := (ip_exception p = [])\<rparr>) s)))"

text \<open>
  Modelled from the spec: \<open>connect_both\<close>, and \<open>disconnect\<close> on the signal of the promise
  and on its signal \<open>exception\<close>. An observer connected to a terminal promise is called
  at once with the stored outcome.
\<close>

definition connect_both ::
  "ref \<Rightarrow> 'k observer \<Rightarrow> ('g, 'v, 'k, 'a) world \<Rightarrow> ('g, 'v, 'k, 'a) world" where
  "connect_both r ob s =
     (case ip_state (promises s r) of
        Pending \<Rightarrow> connect_pending r ob s
      | Finished v \<Rightarrow> notify r ob s
      | Failed e \<Rightarrow> notify r ob (upd_ip r (\<lambda>p. p\<lparr>ip_unhandled := False\<rparr>) s))"

definition disconnect ::
  "ref \<Rightarrow> 'k observer \<Rightarrow> ('g, 'v, 'k, 'a) world \<Rightarrow> ('g, 'v, 'k, 'a) world" where
  "disconnect r ob s = upd_ip r (\<lambda>p. p\<lparr>ip_signal := removeAll ob (ip_signal p)\<rparr>) s"

definition exception_disconnect ::
  "ref \<Rightarrow> 'k observer \<Rightarrow> ('g, 'v, 'k, 'a) world \<Rightarrow> ('g, 'v, 'k, 'a) world" where
  "exception_disconnect r ob s =
     upd_ip r (\<lambda>p. p\<lparr>ip_exception := removeAll ob (ip_exception p)\<rparr>) s"

text \<open>
  Resuming the generator of a task. A task without a generator raises
  \<open>AttributeError\<close> (a method of \<open>None\<close>).
\<close>

definition resume ::
  "('g \<Rightarrow> 'v inject \<Rightarrow> 'v outcome \<times> 'g) \<Rightarrow> 'g option \<Rightarrow> 'v inject
     \<Rightarrow> 'v outcome \<times> 'g option" where
  "resume adv generator sent =
     (case generator of
        None \<Rightarrow> (Raise AttributeError, None)
      | Some g \<Rightarrow> (case adv g sent of (out, g1) \<Rightarrow> (out, Some g1)))"

text \<open>
  \<^verbatim>\<open>_process(generator, inprogress)\<close>: without a prerequisite the generator takes
  \<open>next()\<close>; with a failed prerequisite the marker of the unhandled failure is cleared
  and the error is thrown into the generator; otherwise the result is sent.
\<close>

definition process ::
  "('g \<Rightarrow> 'v inject \<Rightarrow> 'v outcome \<times> 'g) \<Rightarrow> 'g option \<Rightarrow> ref option
     \<Rightarrow> ('g, 'v, 'k, 'a) world \<Rightarrow> ('v outcome \<times> 'g option) \<times> ('g, 'v, 'k, 'a) world" where
  "process adv generator inprogress s =
     (case inprogress of
        Some r \<Rightarrow>
          (case exception_of (promises s r) of
             Some e \<Rightarrow>
               (resume adv generator (Throw e), upd_ip r (\<lambda>p. p\<lparr>ip_unhandled := False\<rparr>) s)
           | None \<Rightarrow> (resume adv generator (Send (result_of (promises s r))), s))
      | None \<Rightarrow> (resume adv generator Next, s))"

text \<open>
  \<^verbatim>\<open>CoroutineInProgress.__init__(function, function_info, interval, progress)\<close> for the
  new object \<open>t\<close>.
\<close>

definition CoroutineInProgress_init ::
  "'g \<Rightarrow> nat \<Rightarrow> 'v val \<Rightarrow> ref \<Rightarrow> ('g, 'v, 'k, 'a) world
     \<Rightarrow> (exn + unit) \<times> ('g, 'v, 'k, 'a) world" where
  "CoroutineInProgress_init function ival progress t s =
     (let s1 = s\<lparr>promises := (promises s)(t :=
                   \<lparr>ip_state = Pending, ip_signal = [], ip_exception = [],
                    ip_unhandled = False, ip_progress = False\<rparr>),
                 tasks := (tasks s)(t \<mapsto>
                   \<lparr>coroutine = Some function, timer = True, timer_active = None,
                    interval = ival, prerequisite_ip = None\<rparr>),
                 active_coroutines := insert t (active_coroutines s)\<rparr>
      in case progress of
           NotFinished \<Rightarrow> (Inr (), upd_task t (\<lambda>T. T\<lparr>timer_active := Some ival\<rparr>) s1)
         | InProgress r \<Rightarrow>
             (Inr (), connect_both r (Continue t) (upd_task t (\<lambda>T. T\<lparr>prerequisite_ip := Some r\<rparr>) s1))
         | VNone \<Rightarrow> (Inr (), s1)
         | _ \<Rightarrow> (Inl AttributeError, s1))"

text \<open>
  The \<open>try\<close> statement of \<^verbatim>\<open>CoroutineInProgress._stop\<close>: unless the task has finished,
  and only if its signal \<open>exception\<close> has an observer, throw \<open>GeneratorExit\<close> into the
  promise; close the generator, logging a warning for a \<open>RuntimeError\<close>; and in every
  case forget the timer, the generator and the prerequisite.
\<close>

definition stop_try ::
  "('g \<Rightarrow> exn option) \<Rightarrow> bool \<Rightarrow> ref \<Rightarrow> ('g, 'v, 'k, 'a) world
     \<Rightarrow> (exn + unit) \<times> ('g, 'v, 'k, 'a) world" where
  "stop_try cls finished t s =
     (let (r, s3) =
        (case (if \<not> finished \<and> ip_exception (promises s t) \<noteq> []
               then InProgress_throw GeneratorExit t s else Inr s) of
           Inl e \<Rightarrow> (Inl e, s)
         | Inr s1 \<Rightarrow>
             (case Option.bind (tasks s1 t) coroutine of
                None \<Rightarrow> (Inl AttributeError, s1)
              | Some g \<Rightarrow>
                  (case cls g of
                     None \<Rightarrow> (Inr (), emit (Closed t) s1)
                   | Some e \<Rightarrow>
                       if e = RuntimeError
                       then (Inr (), emit (WarnedIgnored t) (emit (Closed t) s1))
                       else (Inl e, emit (Closed t) s1))))
      in (r, upd_task t (\<lambda>T. T\<lparr>timer := False, coroutine := None, prerequisite_ip := None\<rparr>) s3))"

text \<open>
  The first statements of \<^verbatim>\<open>CoroutineInProgress._stop\<close>: stop the timer if it is active,
  and leave \<open>_active_coroutines\<close>.
\<close>

definition stop_begin :: "ref \<Rightarrow> ('g, 'v, 'k, 'a) world \<Rightarrow> ('g, 'v, 'k, 'a) world" where
  "stop_begin t s =
     (let s1 = (case tasks s t of
                  Some T \<Rightarrow>
                    if timer T \<and> timer_active T \<noteq> None
                    then upd_task t (\<lambda>T. T\<lparr>timer_active := None\<rparr>) s else s
                | None \<Rightarrow> s)
      in s1\<lparr>active_coroutines := active_coroutines s1 - {t}\<rparr>)"

text \<open>
  The prerequisite of a stopped task: if it is a \<open>CoroutineInProgress\<close>, \<open>_continue\<close> is
  disconnected from both its signals and its \<open>stop()\<close> is called, which does something
  only if it still has its generator. The result names the prerequisite whose \<open>_stop\<close>
  is to run.
\<close>

definition stop_prerequisite ::
  "ref \<Rightarrow> ('g, 'v, 'k, 'a) world \<Rightarrow> ref option \<times> ('g, 'v, 'k, 'a) world" where
  "stop_prerequisite t s =
     (case Option.bind (tasks s t) prerequisite_ip of
        None \<Rightarrow> (None, s)
      | Some p \<Rightarrow>
          (case tasks s p of
             None \<Rightarrow> (None, s)
           | Some P \<Rightarrow>
               (if coroutine P \<noteq> None then Some p else None,
                exception_disconnect p (Continue t) (disconnect p (Continue t) s))))"

text \<open>
  After the prerequisite: an exception of its \<open>stop()\<close> leaves \<open>_stop\<close> before the \<open>try\<close>
  statement.
\<close>

definition stop_end ::
  "('g \<Rightarrow> exn option) \<Rightarrow> bool \<Rightarrow> ref \<Rightarrow> (exn + unit) \<times> ('g, 'v, 'k, 'a) world
     \<Rightarrow> ((exn + unit) \<times> ('g, 'v, 'k, 'a) world) option" where
  "stop_end cls finished t rs =
     (case rs of
        (Inl e, s) \<Rightarrow> Some (Inl e, s)
      | (Inr _, s) \<Rightarrow> Some (stop_try cls finished t s))"

text \<open>
  \<^verbatim>\<open>CoroutineInProgress._stop(finished)\<close>. The chain of prerequisites may be cyclic, and
  then the call never returns: \<open>None\<close>.
\<close>

partial_function (option) stop_coroutine ::
  "('g \<Rightarrow> exn option) \<Rightarrow> bool \<Rightarrow> ref \<Rightarrow> ('g, 'v, 'k, 'a) world
     \<Rightarrow> ((exn + unit) \<times> ('g, 'v, 'k, 'a) world) option" where
  "stop_coroutine cls finished t s =
     (case tasks s t of
        None \<Rightarrow> Some (Inl AttributeError, s)
      | Some T \<Rightarrow>
          Option.bind
            (case stop_prerequisite t (stop_begin t s) of
               (None, s3) \<Rightarrow> Some (Inr (), s3)
             | (Some p, s3) \<Rightarrow> stop_coroutine cls False p s3)
            (stop_end cls finished t))"

text \<open>
  \<^verbatim>\<open>CoroutineInProgress.stop\<close>: \<open>_stop()\<close> if the task still has its generator.
\<close>

definition stop ::
  "('g \<Rightarrow> exn option) \<Rightarrow> ref \<Rightarrow> ('g, 'v, 'k, 'a) world
     \<Rightarrow> ((exn + unit) \<times> ('g, 'v, 'k, 'a) world) option" where
  "stop cls t s =
     (case Option.bind (tasks s t) coroutine of
        None \<Rightarrow> Some (Inr (), s)
      | Some g \<Rightarrow> stop_coroutine cls False t s)"

text \<open>
  \<^verbatim>\<open>CoroutineInProgress.throw\<close>: stop, then \<open>InProgress.throw\<close>.
\<close>

definition CoroutineInProgress_throw ::
  "('g \<Rightarrow> exn option) \<Rightarrow> exn \<Rightarrow> ref \<Rightarrow> ('g, 'v, 'k, 'a) world
     \<Rightarrow> ((exn + unit) \<times> ('g, 'v, 'k, 'a) world) option" where
  "CoroutineInProgress_throw cls e t s =
     Option.bind (stop_coroutine cls True t s)
       (\<lambda>(r, s1). case r of
           Inl x \<Rightarrow> Some (Inl x, s1)
         | Inr _ \<Rightarrow>
             (case InProgress_throw e t s1 of
                Inl x \<Rightarrow> Some (Inl x, s1)
              | Inr s2 \<Rightarrow> Some (Inr (), s2)))"

text \<open>
  \<^verbatim>\<open>CoroutineInProgress.set_interval\<close>
\<close>

definition set_interval :: "nat \<Rightarrow> ref \<Rightarrow> ('g, 'v, 'k, 'a) world \<Rightarrow> ('g, 'v, 'k, 'a) world" where
  "set_interval ival t s =
     upd_task t (\<lambda>T. T\<lparr>timer_active := (if timer T \<and> timer_active T \<noteq> None then Some ival
                                           else timer_active T),
                       interval := ival\<rparr>) s"

text \<open>
  The handler \<open>except BaseException\<close> of \<^verbatim>\<open>_step\<close>: throw the exception into the task,
  raise it again if it is \<open>SystemExit\<close> or \<open>KeyboardInterrupt\<close>, and return \<open>False\<close>.
\<close>

definition step_raised ::
  "('g \<Rightarrow> exn option) \<Rightarrow> exn \<Rightarrow> ref \<Rightarrow> ('g, 'v, 'k, 'a) world
     \<Rightarrow> ((exn + bool) \<times> ('g, 'v, 'k, 'a) world) option" where
  "step_raised cls e t s =
     Option.bind (CoroutineInProgress_throw cls e t s)
       (\<lambda>(r, s1). case r of
           Inl x \<Rightarrow> Some (Inl x, s1)
         | Inr _ \<Rightarrow> if fatal e then Some (Inl e, s1) else Some (Inr False, s1))"

text \<open>
  The end of \<^verbatim>\<open>_step\<close>: \<open>_stop(finished=True)\<close>, then \<open>finish(result)\<close>, then \<open>False\<close>.
\<close>

definition step_done ::
  "('g \<Rightarrow> exn option) \<Rightarrow> 'v val \<Rightarrow> ref \<Rightarrow> ('g, 'v, 'k, 'a) world
     \<Rightarrow> ((exn + bool) \<times> ('g, 'v, 'k, 'a) world) option" where
  "step_done cls result t s =
     Option.bind (stop_coroutine cls True t s)
       (\<lambda>(r, s1). case r of
           Inl x \<Rightarrow> Some (Inl x, s1)
         | Inr _ \<Rightarrow>
             (case InProgress_finish result t s1 of
                Inl x \<Rightarrow> Some (Inl x, s1)
              | Inr s2 \<Rightarrow> Some (Inr False, s2)))"

text \<open>
  The first statement of the loop of \<^verbatim>\<open>_step\<close>: \<open>_process\<close> on the generator and the
  prerequisite of the task. The generator object changes in place.
\<close>

definition step_advance ::
  "('g \<Rightarrow> 'v inject \<Rightarrow> 'v outcome \<times> 'g) \<Rightarrow> ref \<Rightarrow> 'g task \<Rightarrow> ('g, 'v, 'k, 'a) world
     \<Rightarrow> 'v outcome \<times> ('g, 'v, 'k, 'a) world" where
  "step_advance adv t T s =
     (case process adv (coroutine T) (prerequisite_ip T) s of
        ((out, g1), s1) \<Rightarrow> (out, upd_task t (\<lambda>T. T\<lparr>coroutine := g1\<rparr>) s1))"

text \<open>
  Assignment to \<open>_prerequisite_ip\<close>.
\<close>

definition set_prerequisite ::
  "ref \<Rightarrow> ref option \<Rightarrow> ('g, 'v, 'k, 'a) world \<Rightarrow> ('g, 'v, 'k, 'a) world" where
  "set_prerequisite t p s = upd_task t (\<lambda>T. T\<lparr>prerequisite_ip := p\<rparr>) s"

text \<open>
  \<^verbatim>\<open>CoroutineInProgress._step\<close>. \<open>NotFinished\<close> returns \<open>True\<close>; an unfinished
  \<open>InProgress\<close> is awaited and returns \<open>False\<close>; a finished \<open>InProgress\<close> enters the loop
  again; any other value ends the task. A generator that yields finished promises
  for ever never returns: \<open>None\<close>.
\<close>

partial_function (option) step ::
  "('g \<Rightarrow> 'v inject \<Rightarrow> 'v outcome \<times> 'g) \<Rightarrow> ('g \<Rightarrow> exn option) \<Rightarrow> ref
     \<Rightarrow> ('g, 'v, 'k, 'a) world \<Rightarrow> ((exn + bool) \<times> ('g, 'v, 'k, 'a) world) option" where
  "step adv cls t s =
     (case tasks s t of
        None \<Rightarrow> Some (Inl AttributeError, s)
      | Some T \<Rightarrow>
          (case step_advance adv t T s of
             (Raise e, s2) \<Rightarrow> step_raised cls e t s2
           | (StopIteration, s2) \<Rightarrow> step_done cls VNone t s2
           | (Yield NotFinished, s2) \<Rightarrow> Some (Inr True, set_prerequisite t None s2)
           | (Yield (InProgress r), s2) \<Rightarrow>
               (let s4 = set_prerequisite t (Some r) (set_prerequisite t None s2)
                in if \<not> is_finished (promises s4 r)
                   then Some (Inr False, connect_both r (Continue t) s4)
                   else step adv cls t s4)
           | (Yield result, s2) \<Rightarrow> step_done cls result t (set_prerequisite t None s2)))"

text \<open>
  \<^verbatim>\<open>CoroutineLockedInProgress.__init__\<close>
\<close>

definition CoroutineLockedInProgress_init ::
  "'g \<Rightarrow> nat \<Rightarrow> ref \<Rightarrow> ('g, 'v, 'k, 'a) world \<Rightarrow> (exn + unit) \<times> ('g, 'v, 'k, 'a) world" where
  "CoroutineLockedInProgress_init function ival t s =
     (case CoroutineInProgress_init function ival VNone t s of
        (Inl e, s1) \<Rightarrow> (Inl e, s1)
      | (Inr _, s1) \<Rightarrow>
          (case func_lock s1 of
             None \<Rightarrow> (Inl AttributeError, s1)
           | Some l \<Rightarrow> (Inr (), connect_both l (TryAgain t) s1)))"

text \<open>
  \<^verbatim>\<open>wrap(obj)\<close> in \<open>newfunc\<close>, for the key \<open>k\<close> of the arguments: under the policies
  singleton and pass-last an unfinished object is appended to the list and the
  handler that removes it is connected to both its signals.
\<close>

definition wrap ::
  "policy option \<Rightarrow> bool \<Rightarrow> 'k \<Rightarrow> ref \<Rightarrow> ('g, 'v, 'k, 'a) world \<Rightarrow> ('g, 'v, 'k, 'a) world" where
  "wrap pol progress k obj s =
     (let s1 = (if progress then upd_ip obj (\<lambda>p. p\<lparr>ip_progress := True\<rparr>) s else s)
      in if (pol = Some POLICY_SINGLETON \<or> pol = Some POLICY_PASS_LAST)
            \<and> \<not> is_finished (promises s1 obj)
         then connect_both obj (RemoveLast k obj)
                (s1\<lparr>store_last := (store_last s1)(k := store_last s1 k @ [obj])\<rparr>)
         else s1)"

text \<open>
  The \<open>last\<close> argument that \<open>newfunc\<close> passes: under pass-last the last element of the
  list, or \<open>None\<close> for an empty list.
\<close>

definition last_kwarg :: "policy option \<Rightarrow> ref list \<Rightarrow> last_kw" where
  "last_kwarg pol lst =
     (if pol = Some POLICY_PASS_LAST
      then (if lst \<noteq> [] then LastTask (last lst) else LastNone)
      else NoLast)"

text \<open>
  \<^verbatim>\<open>newfunc(*args, **kwargs)\<close> of \<open>coroutine(interval, policy, progress)\<close>. The
  generator semantics (\<open>adv\<close>, \<open>cls\<close>) and the decorated function (\<open>func\<close>, which
  returns the initial state of its generator, or nothing when it is not a generator
  function) are parameters, and so is the identity \<open>ip\<close> of the object that the call
  creates.
\<close>

definition newfunc ::
  "('g \<Rightarrow> 'v inject \<Rightarrow> 'v outcome \<times> 'g) \<Rightarrow> ('g \<Rightarrow> exn option)
     \<Rightarrow> (bool \<Rightarrow> 'a \<Rightarrow> last_kw \<Rightarrow> 'g option) \<Rightarrow> ('a \<Rightarrow> 'k)
     \<Rightarrow> nat \<Rightarrow> policy option \<Rightarrow> bool
     \<Rightarrow> ref \<Rightarrow> 'a \<Rightarrow> ('g, 'v, 'k, 'a) world
     \<Rightarrow> ((exn + ref) \<times> ('g, 'v, 'k, 'a) world) option" where
  "newfunc adv cls func sel ival pol progress ip args s =
     (let k = sel args; lst = store_last s k in
      if pol = Some POLICY_SINGLETON \<and> lst \<noteq> [] then Some (Inr (last lst), s)
      else
        (let kw = last_kwarg pol lst;
             s1 = emit (Invoked progress args kw) s
         in case func progress args kw of
              None \<Rightarrow> Some (Inl ValueError, s1)
            | Some function \<Rightarrow>
                if pol = Some POLICY_SYNCHRONIZED
                   \<and> (case func_lock s1 of None \<Rightarrow> False
                       | Some l \<Rightarrow> \<not> is_finished (promises s1 l))
                then
                  (case CoroutineLockedInProgress_init function ival ip s1 of
                     (Inl e, s2) \<Rightarrow> Some (Inl e, s2)
                   | (Inr _, s2) \<Rightarrow> Some (Inr ip, wrap pol progress k ip s2))
                else
                  (case CoroutineInProgress_init function ival VNone ip s1 of
                     (Inl e, s2) \<Rightarrow> Some (Inl e, s2)
                   | (Inr _, s2) \<Rightarrow>
                       Option.bind
                         (step adv cls ip
                            (if pol = Some POLICY_SYNCHRONIZED then s2\<lparr>func_lock := Some ip\<rparr>
                             else s2))
                         (\<lambda>(r, s3). case r of
                             Inl e \<Rightarrow> Some (Inl e, s3)
                           | Inr again \<Rightarrow>
                               if again then
                                 (case tasks s3 ip of
                                    Some T \<Rightarrow>
                                      if timer T
                                      then Some (Inr ip,
                                             wrap pol progress k ip
                                               (upd_task ip (\<lambda>T. T\<lparr>timer_active := Some ival\<rparr>) s3))
                                      else Some (Inl AttributeError, s3)
                                  | None \<Rightarrow> Some (Inl AttributeError, s3))
                               else Some (Inr ip, wrap pol progress k ip s3)))))"

text \<open>
  Concrete runs: the state without any object, a generator that yields \<open>NotFinished\<close>
  for ever, a \<open>close()\<close> that succeeds, and a decorated function whose generator starts
  in state 0.
\<close>

definition world0 :: "(nat, nat, nat, nat) world" where
  "world0 = \<lparr> promises = (\<lambda>_. \<lparr>ip_state = Pending, ip_signal = [], ip_exception = [],
                                   ip_unhandled = False, ip_progress = False\<rparr>),
              tasks = (\<lambda>_. None), active_coroutines = {}, store_last = (\<lambda>_. []),
              func_lock = None, history = [] \<rparr>"

definition adv_wait :: "nat \<Rightarrow> nat inject \<Rightarrow> nat outcome \<times> nat" where
  "adv_wait g x = (Yield NotFinished, Suc g)"

definition cls_ok :: "nat \<Rightarrow> exn option" where
  "cls_ok g = None"

definition func_gen :: "bool \<Rightarrow> nat \<Rightarrow> last_kw \<Rightarrow> nat option" where
  "func_gen pr a kw = Some 0"

text \<open>
  The state after the first call under pass-last.
\<close>

definition world1 :: "(nat, nat, nat, nat) world" where
  "world1 = \<lparr> promises = (promises world0)
                 (1 := \<lparr>ip_state = Pending, ip_signal = [RemoveLast 0 1],
                        ip_exception = [RemoveLast 0 1], ip_unhandled = False,
                        ip_progress = False\<rparr>),
              tasks = [1 \<mapsto> \<lparr>coroutine = Some 1, timer = True, timer_active = Some 0,
                               interval = 0, prerequisite_ip = None\<rparr>],
              active_coroutines = {1}, store_last = (\<lambda>_. [])(0 := [1]),
              func_lock = None, history = [Invoked False 7 LastNone] \<rparr>"

text \<open>
  A task without the schedule of its timer.
\<close>

definition untimed :: "'g task \<Rightarrow> 'g task" where
  "untimed T = T\<lparr>timer_active := None\<rparr>"

text \<open>
  A generator that first yields promise 7 and then \<open>NotFinished\<close>, and a state in which
  promise 7 has failed and task 1 has not been resumed yet.
\<close>

definition adv_chain :: "nat \<Rightarrow> nat inject \<Rightarrow> nat outcome \<times> nat" where
  "adv_chain g x = (if g = 0 then Yield (InProgress 7) else Yield NotFinished, Suc g)"

text \<open>
  A generator that shows what it is resumed with: it yields \<open>NotFinished\<close> on \<open>next()\<close>,
  yields the value it is sent, and raises the error thrown into it.
\<close>

definition adv_echo :: "nat \<Rightarrow> nat inject \<Rightarrow> nat outcome \<times> nat" where
  "adv_echo g x =
     (case x of Next \<Rightarrow> Yield NotFinished | Send v \<Rightarrow> Yield v | Throw e \<Rightarrow> Raise e, Suc g)"

definition world7 :: "(nat, nat, nat, nat) world" where
  "world7 = world0 \<lparr> promises := (promises world0)
                 (7 := \<lparr>ip_state = Failed (Error 3), ip_signal = [], ip_exception = [],
                        ip_unhandled = True, ip_progress = False\<rparr>),
              tasks := [1 \<mapsto> \<lparr>coroutine = Some 0, timer = True, timer_active = None,
                               interval = 0, prerequisite_ip = None\<rparr>],
              active_coroutines := {1} \<rparr>"

text \<open>
  Further concrete states: after a first call under the policy synchronized, the same
  with an observer of the value of task 1, after a first call under the policy
  singleton, and the states that \<open>_step\<close> and \<open>stop\<close> lead to from these.
\<close>

definition blank :: "(nat, nat) ip" where
  "blank = \<lparr>ip_state = Pending, ip_signal = [], ip_exception = [],
            ip_unhandled = False, ip_progress = False\<rparr>"

definition task_at :: "nat \<Rightarrow> nat option \<Rightarrow> nat task" where
  "task_at g ta = \<lparr>coroutine = Some g, timer = True, timer_active = ta,
                    interval = 0, prerequisite_ip = None\<rparr>"

definition world_sync :: "(nat, nat, nat, nat) world" where
  "world_sync = \<lparr> promises = (promises world0)(1 := blank),
                  tasks = [1 \<mapsto> task_at 1 (Some 0)],
                  active_coroutines = {1}, store_last = (\<lambda>_. []),
                  func_lock = Some 1, history = [Invoked False 7 NoLast] \<rparr>"

definition world_watched :: "(nat, nat, nat, nat) world" where
  "world_watched = world_sync \<lparr> promises := (promises world0)
                      (1 := blank \<lparr>ip_signal := [UserObserver 5]\<rparr>) \<rparr>"

definition world1_single :: "(nat, nat, nat, nat) world" where
  "world1_single = world1 \<lparr> history := [Invoked False 7 NoLast] \<rparr>"

definition world1_again :: "(nat, nat, nat, nat) world" where
  "world1_again = world1 \<lparr> tasks := [1 \<mapsto> task_at 2 (Some 0)] \<rparr>"

definition world1_stopped :: "(nat, nat, nat, nat) world" where
  "world1_stopped =
     \<lparr> promises = (promises world0)
         (1 := \<lparr>ip_state = Failed GeneratorExit, ip_signal = [RemoveLast 0 1],
                ip_exception = [RemoveLast 0 1], ip_unhandled = False, ip_progress = False\<rparr>),
       tasks = [1 \<mapsto> \<lparr>coroutine = None, timer = False, timer_active = None,
                        interval = 0, prerequisite_ip = None\<rparr>],
       active_coroutines = {}, store_last = (\<lambda>_. [])(0 := []),
       func_lock = None, history = [Invoked False 7 LastNone, Closed 1] \<rparr>"

definition world_watched_stopped :: "(nat, nat, nat, nat) world" where
  "world_watched_stopped =
     world_watched \<lparr> tasks := [1 \<mapsto> \<lparr>coroutine = None, timer = False, timer_active = None,
                                       interval = 0, prerequisite_ip = None\<rparr>],
                     active_coroutines := {},
                     history := [Invoked False 7 NoLast, Closed 1] \<rparr>"

definition world7_after :: "(nat, nat, nat, nat) world" where
  "world7_after = world7 \<lparr> promises := (promises world0)
                 (7 := \<lparr>ip_state = Failed (Error 3), ip_signal = [], ip_exception = [],
                        ip_unhandled = False, ip_progress = False\<rparr>),
              tasks := [1 \<mapsto> task_at 2 None] \<rparr>"

text \<open>
  A selector with one key for all arguments, and the state after two calls under
  pass-last.
\<close>

definition one_key :: "nat \<Rightarrow> nat" where
  "one_key a = 0"

definition world2 :: "(nat, nat, nat, nat) world" where
  "world2 = \<lparr> promises = (promises world0)
                 (1 := \<lparr>ip_state = Pending, ip_signal = [RemoveLast 0 1],
                        ip_exception = [RemoveLast 0 1], ip_unhandled = False,
                        ip_progress = False\<rparr>,
                  2 := \<lparr>ip_state = Pending, ip_signal = [RemoveLast 0 2],
                        ip_exception = [RemoveLast 0 2], ip_unhandled = False,
                        ip_progress = False\<rparr>),
              tasks = [1 \<mapsto> task_at 1 (Some 0), 2 \<mapsto> task_at 1 (Some 0)],
              active_coroutines = {2, 1}, store_last = (\<lambda>_. [])(0 := [1, 2]),
              func_lock = None,
              history = [Invoked False 7 LastNone, Invoked False 8 (LastTask 1)] \<rparr>"

subsection \<open>Fields that the operations leave as they are\<close>

lemma upd_ip_simps [simp]:
  "tasks (upd_ip r f s) = tasks s"
  "active_coroutines (upd_ip r f s) = active_coroutines s"
  "store_last (upd_ip r f s) = store_last s"
  "func_lock (upd_ip r f s) = func_lock s"
  "history (upd_ip r f s) = history s"
  "promises (upd_ip r f s) = (promises s)(r := f (promises s r))"
  by (simp_all add: upd_ip_def)

lemma upd_task_simps [simp]:
  "promises (upd_task t f s) = promises s"
  "active_coroutines (upd_task t f s) = active_coroutines s"
  "store_last (upd_task t f s) = store_last s"
  "func_lock (upd_task t f s) = func_lock s"
  "history (upd_task t f s) = history s"
  "tasks (upd_task t f s) = (tasks s)(t := map_option f (tasks s t))"
  by (simp_all add: upd_task_def)

lemma emit_simps [simp]:
  "promises (emit e s) = promises s"
  "tasks (emit e s) = tasks s"
  "active_coroutines (emit e s) = active_coroutines s"
  "store_last (emit e s) = store_last s"
  "func_lock (emit e s) = func_lock s"
  "history (emit e s) = history s @ [e]"
  by (simp_all add: emit_def)

lemma history_continue [simp]: "history (continue t s) = history s"
  by (simp add: continue_def split: option.splits)

lemma history_connect_pending [simp]: "history (connect_pending r ob s) = history s"
  by (simp add: connect_pending_def)

lemma history_try_again [simp]: "history (try_again t s) = history s"
  by (simp add: try_again_def split: option.splits)

lemma history_notify: "prefix (history s) (history (notify src ob s))"
  by (simp add: notify_def split: observer.splits)

lemma history_fold_notify: "prefix (history s) (history (fold (notify src) obs s))"
proof (induction obs arbitrary: s)
  case Nil
  show ?case by simp
next
  case (Cons ob obs)
  have "prefix (history s) (history (notify src ob s))" by (rule history_notify)
  also have "prefix \<dots> (history (fold (notify src) obs (notify src ob s)))" by (rule Cons.IH)
  finally show ?case by simp
qed

lemma history_finish:
  "InProgress_finish v r s = Inr s' \<Longrightarrow> prefix (history s) (history s')"
  using history_fold_notify [of "upd_ip r f s" for f]
  by (auto simp: InProgress_finish_def split: sum.splits)

lemma history_throw:
  "InProgress_throw e r s = Inr s' \<Longrightarrow> prefix (history s) (history s')"
  using history_fold_notify [of "upd_ip r f s" for f]
  by (auto simp: InProgress_throw_def split: sum.splits)

lemma history_connect_both: "prefix (history s) (history (connect_both r ob s))"
  using history_notify [of "upd_ip r f s" for f] history_notify [of s]
  by (auto simp: connect_both_def split: pstate.splits)

lemma history_stop_try:
  assumes "stop_try cls fin t s = (r, s')"
  shows "prefix (history s) (history s')"
proof (cases "\<not> fin \<and> ip_exception (promises s t) \<noteq> []")
  case True
  show ?thesis
  proof (cases "InProgress_throw GeneratorExit t s")
    case (Inl e)
    with True assms show ?thesis by (auto simp: stop_try_def)
  next
    case (Inr s1)
    from history_throw [OF Inr] have p: "prefix (history s) (history s1)" .
    from True Inr assms have "prefix (history s1) (history s')"
      by (auto simp: stop_try_def split: option.splits if_splits)
    with p show ?thesis by (rule prefix_order.trans)
  qed
next
  case False
  with assms show ?thesis
    by (auto simp: stop_try_def split: option.splits if_splits)
qed

lemma history_stop_begin [simp]: "history (stop_begin t s) = history s"
  by (simp add: stop_begin_def Let_def split: option.splits)

lemma history_stop_prerequisite:
  "stop_prerequisite t s = (po, s3) \<Longrightarrow> history s3 = history s"
  by (auto simp: stop_prerequisite_def exception_disconnect_def disconnect_def
      split: option.splits)

lemma history_stop_end:
  "stop_end cls fin t (r4, s4) = Some (r, s') \<Longrightarrow> prefix (history s4) (history s')"
  by (auto simp: stop_end_def split: sum.splits dest: history_stop_try)

lemma history_stop_coroutine_aux:
  assumes "stop_coroutine cls fin t s = Some y"
  shows "prefix (history s) (history (snd y))"
proof (rule stop_coroutine.raw_induct
    [where P = "\<lambda>cls fin t s y. prefix (history s) (history (snd y))", OF _ assms],
    goal_cases)
  case (1 f cls fin t s y)
  show ?case
  proof (cases "tasks s t")
    case None
    with 1(2) show ?thesis by auto
  next
    case (Some T)
    obtain po s3 where sp: "stop_prerequisite t (stop_begin t s) = (po, s3)"
      by (cases "stop_prerequisite t (stop_begin t s)")
    from history_stop_prerequisite [OF sp] have h3: "history s3 = history s" by simp
    from 1(2) Some sp obtain r4 s4 where
      pre: "(case po of None \<Rightarrow> Some (Inr (), s3) | Some p \<Rightarrow> f cls False p s3)
              = Some (r4, s4)"
      and post: "stop_end cls fin t (r4, s4) = Some y"
      by (auto simp: bind_eq_Some_conv)
    have "prefix (history s3) (history s4)"
    proof (cases po)
      case None
      with pre show ?thesis by simp
    next
      case (Some p)
      with pre have "f cls False p s3 = Some (r4, s4)" by simp
      from 1(1) [OF this] show ?thesis by simp
    qed
    moreover from post have "prefix (history s4) (history (snd y))"
      by (cases y) (auto dest: history_stop_end)
    ultimately show ?thesis using h3 by (auto intro: prefix_order.trans)
  qed
qed

lemma history_stop_coroutine:
  "stop_coroutine cls fin t s = Some (r, s') \<Longrightarrow> prefix (history s) (history s')"
  by (drule history_stop_coroutine_aux) simp

lemma history_CoroutineInProgress_throw:
  assumes "CoroutineInProgress_throw cls e t s = Some (r, s')"
  shows "prefix (history s) (history s')"
proof -
  from assms obtain r1 s1 where
    a: "stop_coroutine cls True t s = Some (r1, s1)"
    and b: "(case r1 of Inl x \<Rightarrow> Some (Inl x, s1)
             | Inr _ \<Rightarrow> (case InProgress_throw e t s1 of Inl x \<Rightarrow> Some (Inl x, s1)
                          | Inr s2 \<Rightarrow> Some (Inr (), s2))) = Some (r, s')"
    by (auto simp: CoroutineInProgress_throw_def bind_eq_Some_conv)
  from b have "prefix (history s1) (history s')"
    by (auto split: sum.splits dest: history_throw)
  with history_stop_coroutine [OF a] show ?thesis by (rule prefix_order.trans)
qed

lemma history_step_raised:
  assumes "step_raised cls e t s = Some (r, s')"
  shows "prefix (history s) (history s')"
proof -
  from assms obtain r1 s1 where
    a: "CoroutineInProgress_throw cls e t s = Some (r1, s1)"
    and b: "(case r1 of Inl x \<Rightarrow> Some (Inl x, s1)
             | Inr _ \<Rightarrow> if fatal e then Some (Inl e, s1) else Some (Inr False, s1)) = Some (r, s')"
    by (auto simp: step_raised_def bind_eq_Some_conv)
  from b have "s' = s1" by (auto split: sum.splits if_splits)
  with history_CoroutineInProgress_throw [OF a] show ?thesis by simp
qed

lemma history_step_done:
  assumes "step_done cls v t s = Some (r, s')"
  shows "prefix (history s) (history s')"
proof -
  from assms obtain r1 s1 where
    a: "stop_coroutine cls True t s = Some (r1, s1)"
    and b: "(case r1 of Inl x \<Rightarrow> Some (Inl x, s1)
             | Inr _ \<Rightarrow> (case InProgress_finish v t s1 of Inl x \<Rightarrow> Some (Inl x, s1)
                          | Inr s2 \<Rightarrow> Some (Inr False, s2))) = Some (r, s')"
    by (auto simp: step_done_def bind_eq_Some_conv)
  from b have "prefix (history s1) (history s')"
    by (auto split: sum.splits dest: history_finish)
  with history_stop_coroutine [OF a] show ?thesis by (rule prefix_order.trans)
qed

lemma history_step_advance:
  "step_advance adv t T s = (out, s2) \<Longrightarrow> history s2 = history s"
  by (auto simp: step_advance_def process_def split: prod.splits option.splits)

lemma history_set_prerequisite [simp]: "history (set_prerequisite t p s) = history s"
  by (simp add: set_prerequisite_def)

lemma history_step_aux:
  assumes "step adv cls t s = Some y"
  shows "prefix (history s) (history (snd y))"
proof (rule step.raw_induct
    [where P = "\<lambda>adv cls t s y. prefix (history s) (history (snd y))", OF _ assms],
    goal_cases)
  case (1 f adv cls t s y)
  obtain r s' where y: "y = (r, s')" by (cases y)
  show ?case
  proof (cases "tasks s t")
    case None
    with 1(2) show ?thesis by auto
  next
    case (Some T)
    obtain out s2 where sa: "step_advance adv t T s = (out, s2)"
      by (cases "step_advance adv t T s")
    from history_step_advance [OF sa] have h2: "history s2 = history s" .
    show ?thesis
    proof (cases out)
      case (Raise e)
      with 1(2) Some sa y have "step_raised cls e t s2 = Some (r, s')" by simp
      from history_step_raised [OF this] h2 y show ?thesis by simp
    next
      case StopIteration
      with 1(2) Some sa y have "step_done cls VNone t s2 = Some (r, s')" by simp
      from history_step_done [OF this] h2 y show ?thesis by simp
    next
      case (Yield v)
      show ?thesis
      proof (cases "v = NotFinished")
        case True
        with 1(2) Some sa Yield h2 show ?thesis by auto
      next
        case nf: False
        show ?thesis
        proof (cases "\<exists>p. v = InProgress p")
          case True
          then obtain p where v: "v = InProgress p" by blast
          let ?s4 = "set_prerequisite t (Some p) (set_prerequisite t None s2)"
          show ?thesis
          proof (cases "is_finished (promises ?s4 p)")
            case True
            with 1(2) Some sa Yield v have "f adv cls t ?s4 = Some y"
              by (simp add: Let_def)
            from 1(1) [OF this] h2 show ?thesis by simp
          next
            case False
            with 1(2) Some sa Yield v y have "s' = connect_both p (Continue t) ?s4"
              by (simp add: Let_def)
            with history_connect_both [of ?s4 p "Continue t"] h2 y show ?thesis by simp
          qed
        next
          case False
          with nf 1(2) Some sa Yield y
          have "step_done cls v t (set_prerequisite t None s2) = Some (r, s')"
            by (cases v) auto
          from history_step_done [OF this] h2 y show ?thesis by simp
        qed
      qed
    qed
  qed
qed

lemma history_step:
  "step adv cls t s = Some (r, s') \<Longrightarrow> prefix (history s) (history s')"
  by (drule history_step_aux) simp

lemma history_CoroutineInProgress_init:
  "CoroutineInProgress_init g ival pr t s = (r, s1) \<Longrightarrow> prefix (history s) (history s1)"
  using history_connect_both [of "upd_task t f (s\<lparr>promises := P, tasks := Q, active_coroutines := A\<rparr>)" for f P Q A]
  by (auto simp: CoroutineInProgress_init_def Let_def split: val.splits)

lemma history_CoroutineLockedInProgress_init:
  assumes "CoroutineLockedInProgress_init g ival t s = (r, s1)"
  shows "prefix (history s) (history s1)"
proof -
  obtain r0 s0 where i: "CoroutineInProgress_init g ival VNone t s = (r0, s0)"
    by (cases "CoroutineInProgress_init g ival VNone t s")
  from assms i have "prefix (history s0) (history s1)"
    by (auto simp: CoroutineLockedInProgress_init_def history_connect_both
        split: sum.splits option.splits)
  with history_CoroutineInProgress_init [OF i] show ?thesis by (rule prefix_order.trans)
qed

lemma history_wrap: "prefix (history s) (history (wrap pol pr k t s))"
proof -
  define s1 where "s1 = (if pr then upd_ip t (\<lambda>p. p\<lparr>ip_progress := True\<rparr>) s else s)"
  define s2 where "s2 = s1\<lparr>store_last := (store_last s1)(k := store_last s1 k @ [t])\<rparr>"
  have h1: "history s1 = history s" by (simp add: s1_def)
  have h2: "history s2 = history s" by (simp add: s2_def h1)
  have w: "wrap pol pr k t s = s1 \<or> wrap pol pr k t s = connect_both t (RemoveLast k t) s2"
    unfolding wrap_def Let_def s1_def [symmetric] s2_def [symmetric] by simp
  from history_connect_both [of s2 t "RemoveLast k t"] h2
  have "prefix (history s) (history (connect_both t (RemoveLast k t) s2))" by simp
  with w h1 show ?thesis by auto
qed

text \<open>
  What a call that enters the decorated function leaves behind.
\<close>

lemma newfunc_enters:
  assumes nf: "newfunc adv cls func sel ival pol progress ip args s = Some (res, s')"
    and new: "\<not> (pol = Some POLICY_SINGLETON \<and> store_last s (sel args) \<noteq> [])"
  shows "prefix (history s @ [Invoked progress args (last_kwarg pol (store_last s (sel args)))])
           (history s')
       \<and> (\<forall>r. res = Inr r \<longrightarrow> r = ip \<and> (\<exists>s5. s' = wrap pol progress (sel args) ip s5))"
proof -
  let ?kw = "last_kwarg pol (store_last s (sel args))"
  let ?s1 = "emit (Invoked progress args ?kw) s"
  have h1: "history ?s1 = history s @ [Invoked progress args ?kw]" by simp
  show ?thesis
  proof (cases "func progress args ?kw")
    case None
    with nf new h1 show ?thesis by (auto simp: newfunc_def Let_def)
  next
    case (Some g)
    show ?thesis
    proof (cases "pol = Some POLICY_SYNCHRONIZED
                   \<and> (case func_lock ?s1 of None \<Rightarrow> False
                       | Some l \<Rightarrow> \<not> is_finished (promises ?s1 l))")
      case True
      obtain r2 s2 where i: "CoroutineLockedInProgress_init g ival ip ?s1 = (r2, s2)"
        by (cases "CoroutineLockedInProgress_init g ival ip ?s1")
      from history_CoroutineLockedInProgress_init [OF i] have p2: "prefix (history ?s1) (history s2)" .
      from nf new Some True i have
        "(\<exists>e. r2 = Inl e \<and> res = Inl e \<and> s' = s2)
         \<or> (res = Inr ip \<and> s' = wrap pol progress (sel args) ip s2)"
        by (auto simp: newfunc_def Let_def split: sum.splits)
      then show ?thesis
      proof
        assume "\<exists>e. r2 = Inl e \<and> res = Inl e \<and> s' = s2"
        with p2 h1 show ?thesis by auto
      next
        assume a: "res = Inr ip \<and> s' = wrap pol progress (sel args) ip s2"
        from history_wrap [of s2 pol progress "sel args" ip] a
        have "prefix (history s2) (history s')" by simp
        with p2 have "prefix (history ?s1) (history s')" by (rule prefix_order.trans)
        with h1 a show ?thesis by auto
      qed
    next
      case False
      obtain r2 s2 where i: "CoroutineInProgress_init g ival VNone ip ?s1 = (r2, s2)"
        by (cases "CoroutineInProgress_init g ival VNone ip ?s1")
      from history_CoroutineInProgress_init [OF i] have p2: "prefix (history ?s1) (history s2)" .
      let ?s2' = "if pol = Some POLICY_SYNCHRONIZED then s2\<lparr>func_lock := Some ip\<rparr> else s2"
      have h2': "history ?s2' = history s2" by simp
      show ?thesis
      proof (cases r2)
        case (Inl e)
        with nf new Some False i have "res = Inl e \<and> s' = s2"
          by (auto simp: newfunc_def Let_def)
        with p2 h1 show ?thesis by auto
      next
        case (Inr u)
        with nf new Some False i obtain r3 s3 where
          st: "step adv cls ip ?s2' = Some (r3, s3)"
          and fin: "(case r3 of
                      Inl e \<Rightarrow> Some (Inl e, s3)
                    | Inr again \<Rightarrow>
                        if again then
                          (case tasks s3 ip of
                             Some T \<Rightarrow>
                               if timer T
                               then Some (Inr ip,
                                      wrap pol progress (sel args) ip
                                        (upd_task ip (\<lambda>T. T\<lparr>timer_active := Some ival\<rparr>) s3))
                               else Some (Inl AttributeError, s3)
                           | None \<Rightarrow> Some (Inl AttributeError, s3))
                        else Some (Inr ip, wrap pol progress (sel args) ip s3)) = Some (res, s')"
          by (auto simp: newfunc_def Let_def bind_eq_Some_conv)
        from history_step [OF st] h2' p2 have p3: "prefix (history ?s1) (history s3)"
          by (auto intro: prefix_order.trans)
        from fin have
          "(s' = s3 \<and> (\<exists>e. res = Inl e))
           \<or> (res = Inr ip \<and> (\<exists>s5. s' = wrap pol progress (sel args) ip s5 \<and> history s5 = history s3))"
          by (auto split: sum.splits if_splits option.splits)
        then show ?thesis
        proof
          assume "s' = s3 \<and> (\<exists>e. res = Inl e)"
          with p3 h1 show ?thesis by auto
        next
          assume "res = Inr ip \<and> (\<exists>s5. s' = wrap pol progress (sel args) ip s5 \<and> history s5 = history s3)"
          then obtain s5 where r: "res = Inr ip" and w: "s' = wrap pol progress (sel args) ip s5"
            and h5: "history s5 = history s3" by blast
          from history_wrap [of s5 pol progress "sel args" ip] w h5
          have "prefix (history s3) (history s')" by simp
          with p3 have "prefix (history ?s1) (history s')" by (rule prefix_order.trans)
          with h1 r w show ?thesis by auto
        qed
      qed
    qed
  qed
qed

lemmas engine_defs =
  newfunc_def last_kwarg_def wrap_def CoroutineInProgress_init_def CoroutineLockedInProgress_init_def
  step_advance_def process_def resume_def set_prerequisite_def connect_both_def connect_pending_def
  is_finished_def exception_of_def result_of_def step_done_def step_raised_def
  CoroutineInProgress_throw_def stop_def stop_begin_def stop_prerequisite_def stop_end_def stop_try_def
  InProgress_finish_def InProgress_throw_def settle_def notify_def continue_def try_again_def
  disconnect_def exception_disconnect_def upd_ip_def upd_task_def emit_def Let_def fatal_def

lemmas world_defs = world0_def world1_def world7_def world_sync_def world_watched_def
  blank_def task_at_def adv_wait_def adv_chain_def cls_ok_def func_gen_def
  world1_single_def world1_again_def world1_stopped_def world_watched_stopped_def world7_after_def

lemmas run_defs = engine_defs step.simps stop_coroutine.simps world_defs numeral_2_eq_2

lemmas run_defs2 = run_defs one_key_def world2_def

text \<open>
  What \<open>wrap\<close> does to an object that is pending afterwards.
\<close>

lemma wrap_appends:
  assumes "pol = Some POLICY_SINGLETON \<or> pol = Some POLICY_PASS_LAST"
    and "ip_state (promises (wrap pol pr k t s) t) = Pending"
  shows "store_last (wrap pol pr k t s) k = store_last s k @ [t]
       \<and> ip_signal (promises (wrap pol pr k t s) t) = ip_signal (promises s t) @ [RemoveLast k t]
       \<and> ip_exception (promises (wrap pol pr k t s) t)
           = ip_exception (promises s t) @ [RemoveLast k t]"
proof (cases "ip_state (promises s t) = Pending")
  case True
  with assms(1) show ?thesis
    by (simp add: wrap_def Let_def is_finished_def connect_both_def connect_pending_def)
next
  case False
  with assms have False
    by (auto simp: wrap_def Let_def is_finished_def split: if_splits)
  then show ?thesis ..
qed

subsection \<open>Notifications and the lists\<close>

text \<open>
  Only the removing handler changes a list, and it only removes.
\<close>

lemma store_last_continue [simp]: "store_last (continue t s) = store_last s"
  by (simp add: continue_def split: option.splits)

lemma store_last_connect_pending [simp]: "store_last (connect_pending r ob s) = store_last s"
  by (simp add: connect_pending_def)

lemma store_last_try_again [simp]: "store_last (try_again t s) = store_last s"
  by (simp add: try_again_def split: option.splits)








subsection \<open>Notifications and the tasks\<close>

text \<open>
  A notification changes no state of a promise and, of a task, only the schedule of
  the timer.
\<close>

lemma untimed_fields [simp]:
  "coroutine (untimed T) = coroutine T" "timer (untimed T) = timer T"
  "interval (untimed T) = interval T" "prerequisite_ip (untimed T) = prerequisite_ip T"
  by (simp_all add: untimed_def)

lemma untimed_eqD:
  "map_option untimed a = map_option untimed b \<Longrightarrow>
     map_option coroutine a = map_option coroutine b \<and> map_option timer a = map_option timer b
     \<and> map_option prerequisite_ip a = map_option prerequisite_ip b
     \<and> map_option interval a = map_option interval b"
proof (cases a; cases b)
  fix x y assume a: "a = Some x" and b: "b = Some y" and e: "map_option untimed a = map_option untimed b"
  from a b e have u: "untimed x = untimed y" by simp
  from arg_cong [OF u, of coroutine] arg_cong [OF u, of timer]
    arg_cong [OF u, of prerequisite_ip] arg_cong [OF u, of interval] a b
  show ?thesis by simp
qed simp_all











subsection \<open>Stopping a task\<close>

lemma stop_begin_fields [simp]:
  "promises (stop_begin t s) = promises s"
  "store_last (stop_begin t s) = store_last s"
  "func_lock (stop_begin t s) = func_lock s"
  "active_coroutines (stop_begin t s) = active_coroutines s - {t}"
  by (simp_all add: stop_begin_def Let_def split: option.splits)








subsection \<open>The loop of a step\<close>

text \<open>
  Resuming the generator changes the state of no promise.
\<close>

lemma step_advance_states:
  "step_advance adv t T s = (out, s2) \<Longrightarrow> ip_state (promises s2 q) = ip_state (promises s q)"
  by (auto simp: step_advance_def process_def split: prod.splits option.splits)

text \<open>
  Claim C1, amended. After one advance of the generator of a task, \<open>_step\<close> goes on as
  follows. On \<open>NotFinished\<close> it returns \<open>True\<close> at once, with no further advance: the
  timer runs the next step. On an \<open>InProgress\<close> that is already finished it is the
  same as \<open>_step\<close> started again with that promise as prerequisite, so the generator
  is advanced again inside the same call. On an unfinished \<open>InProgress\<close> it connects
  \<open>_continue\<close> and returns \<open>False\<close>. On any other value, on the end of the generator
  and on an exception it settles the task.
\<close>

theorem step_inline_loop:
  assumes T: "tasks s t = Some T"
    and adv: "step_advance adv t T s = (out, s2)"
  shows "(out = Yield NotFinished \<longrightarrow>
            step adv cls t s = Some (Inr True, set_prerequisite t None s2))
     \<and> (\<forall>r. out = Yield (InProgress r) \<and> is_finished (promises s r) \<longrightarrow>
            step adv cls t s
              = step adv cls t (set_prerequisite t (Some r) (set_prerequisite t None s2)))
     \<and> (\<forall>r. out = Yield (InProgress r) \<and> \<not> is_finished (promises s r) \<longrightarrow>
            step adv cls t s
              = Some (Inr False, connect_both r (Continue t)
                        (set_prerequisite t (Some r) (set_prerequisite t None s2))))
     \<and> (\<forall>v. out = Yield v \<and> v \<noteq> NotFinished \<and> (\<forall>r. v \<noteq> InProgress r) \<longrightarrow>
            step adv cls t s = step_done cls v t (set_prerequisite t None s2))
     \<and> (out = StopIteration \<longrightarrow> step adv cls t s = step_done cls VNone t s2)
     \<and> (\<forall>e. out = Raise e \<longrightarrow> step adv cls t s = step_raised cls e t s2)"
proof -
  have fin: "is_finished (promises (set_prerequisite t (Some r) (set_prerequisite t None s2)) r)
               = is_finished (promises s r)" for r
    using step_advance_states [OF adv, of r] by (simp add: is_finished_def set_prerequisite_def)
  have 1: "out = Yield NotFinished \<Longrightarrow>
            step adv cls t s = Some (Inr True, set_prerequisite t None s2)"
    using T adv by (subst step.simps) simp
  have 2: "out = Yield (InProgress r) \<Longrightarrow> is_finished (promises s r) \<Longrightarrow>
            step adv cls t s
              = step adv cls t (set_prerequisite t (Some r) (set_prerequisite t None s2))" for r
    using T adv fin [of r] by (subst step.simps) (simp add: Let_def)
  have 3: "out = Yield (InProgress r) \<Longrightarrow> \<not> is_finished (promises s r) \<Longrightarrow>
            step adv cls t s
              = Some (Inr False, connect_both r (Continue t)
                        (set_prerequisite t (Some r) (set_prerequisite t None s2)))" for r
    using T adv fin [of r] by (subst step.simps) (simp add: Let_def)
  have 4: "out = Yield v \<Longrightarrow> v \<noteq> NotFinished \<Longrightarrow> (\<forall>r. v \<noteq> InProgress r) \<Longrightarrow>
            step adv cls t s = step_done cls v t (set_prerequisite t None s2)" for v
    using T adv by (subst step.simps) (cases v; simp)
  have 5: "out = StopIteration \<Longrightarrow> step adv cls t s = step_done cls VNone t s2"
    using T adv by (subst step.simps) simp
  have 6: "out = Raise e \<Longrightarrow> step adv cls t s = step_raised cls e t s2" for e
    using T adv by (subst step.simps) simp
  from 1 2 3 4 5 6 show ?thesis by blast
qed

theorem step_inline_loop_witness:
  "tasks world7 1 = Some (task_at 0 None)
   \<and> step_advance adv_chain 1 (task_at 0 None) world7
       = (Yield (InProgress 7), upd_task 1 (\<lambda>T. T\<lparr>coroutine := Some 1\<rparr>) world7)
   \<and> is_finished (promises world7 7)
   \<and> step adv_chain cls_ok 1 world7
       = step adv_chain cls_ok 1
           (set_prerequisite 1 (Some 7)
              (set_prerequisite 1 None (upd_task 1 (\<lambda>T. T\<lparr>coroutine := Some 1\<rparr>) world7)))
   \<and> step adv_chain cls_ok 1 world7 = Some (Inr True, world7_after)"
proof -
  have T: "tasks world7 1 = Some (task_at 0 None)" by (simp add: world_defs)
  have a: "step_advance adv_chain 1 (task_at 0 None) world7
       = (Yield (InProgress 7), upd_task 1 (\<lambda>T. T\<lparr>coroutine := Some 1\<rparr>) world7)"
    by (simp add: run_defs)
  have f: "is_finished (promises world7 7)" by (simp add: run_defs)
  have r: "step adv_chain cls_ok 1 world7 = Some (Inr True, world7_after)"
    by (simp add: run_defs)
  from step_inline_loop [OF T a, of cls_ok] T a f r show ?thesis by simp
qed

text \<open>
  Claim C1, as stated, fails: on \<open>NotFinished\<close> the step returns \<open>True\<close> to the timer
  after a single advance (the generator goes from state 1 to state 2), and the task
  is still pending.
\<close>

theorem continue_now_returns_to_main_loop:
  "tasks world1 1 = Some (task_at 1 (Some 0))
   \<and> step_advance adv_wait 1 (task_at 1 (Some 0)) world1 = (Yield NotFinished, world1_again)
   \<and> step adv_wait cls_ok 1 world1 = Some (Inr True, world1_again)
   \<and> tasks world1_again 1 = Some (task_at 2 (Some 0))
   \<and> ip_state (promises world1_again 1) = Pending"
  by (simp add: run_defs)

subsection \<open>The list of the live tasks of a key\<close>




subsection \<open>The policy singleton\<close>

text \<open>
  Claim C4. Under the policy singleton, a call for a key whose list is not empty
  returns the last object of the list and leaves the whole state as it is: no task is
  created and the decorated function is not entered. After a call that created a
  task for a key without live task, while that task is pending, any next call with
  the same key returns that very task and changes nothing.
\<close>

theorem singleton_returns_live_task:
  assumes pol: "pol = Some POLICY_SINGLETON"
  shows "(store_last s (sel args) \<noteq> [] \<longrightarrow>
            newfunc adv cls func sel ival pol progress t args s
              = Some (Inr (last (store_last s (sel args))), s))
     \<and> (store_last s (sel a1) = []
          \<and> newfunc adv cls func sel ival pol progress t1 a1 s = Some (Inr r1, s1)
          \<and> ip_state (promises s1 t1) = Pending \<and> sel a2 = sel a1
        \<longrightarrow> r1 = t1
            \<and> newfunc adv2 cls2 func2 sel ival2 pol progress2 t2 a2 s1 = Some (Inr t1, s1))"
proof -
  have again: "newfunc adv cls func sel ival pol progress t args s
              = Some (Inr (last (store_last s (sel args))), s)"
    if "store_last s (sel args) \<noteq> []" for adv cls func ival progress t args
      and s :: "('a, 'b, 'c, 'd) world"
    using that pol by (simp add: newfunc_def Let_def)
  have first: "r1 = t1
            \<and> newfunc adv2 cls2 func2 sel ival2 pol progress2 t2 a2 s1 = Some (Inr t1, s1)"
    if e: "store_last s (sel a1) = []"
      and nf: "newfunc adv cls func sel ival pol progress t1 a1 s = Some (Inr r1, s1)"
      and live: "ip_state (promises s1 t1) = Pending" and key: "sel a2 = sel a1"
  proof -
    from e have new: "\<not> (pol = Some POLICY_SINGLETON \<and> store_last s (sel a1) \<noteq> [])" by simp
    from newfunc_enters [OF nf new] obtain s5 where
      r: "r1 = t1" and w: "s1 = wrap pol progress (sel a1) t1 s5" by auto
    from wrap_appends [of pol progress "sel a1" t1 s5] pol live w
    have l: "store_last s1 (sel a1) = store_last s5 (sel a1) @ [t1]" by simp
    then have "store_last s1 (sel a2) \<noteq> []" "last (store_last s1 (sel a2)) = t1"
      using key by simp_all
    with again [of s1 a2 adv2 cls2 func2 ival2 progress2 t2] r show ?thesis by simp
  qed
  from again first show ?thesis by blast
qed

theorem singleton_returns_live_task_witness:
  "store_last world0 (one_key 7) = []
   \<and> newfunc adv_wait cls_ok func_gen one_key 0 (Some POLICY_SINGLETON) False 1 7 world0
       = Some (Inr 1, world1_single)
   \<and> ip_state (promises world1_single 1) = Pending
   \<and> newfunc adv_wait cls_ok func_gen one_key 0 (Some POLICY_SINGLETON) False 2 8 world1_single
       = Some (Inr 1, world1_single)
   \<and> history world1_single = [Invoked False 7 NoLast]"
proof -
  have e: "store_last world0 (one_key 7) = []" by (simp add: world_defs)
  have nf: "newfunc adv_wait cls_ok func_gen one_key 0 (Some POLICY_SINGLETON) False 1 7 world0
       = Some (Inr 1, world1_single)" by (simp add: run_defs2)
  have live: "ip_state (promises world1_single 1) = Pending" by (simp add: world_defs)
  from singleton_returns_live_task [OF refl, where s = world0 and sel = one_key and ?a1.0 = 7
      and adv = adv_wait and cls = cls_ok and func = func_gen and ival = 0 and progress = False
      and ?t1.0 = 1 and ?r1.0 = 1 and ?s1.0 = world1_single and ?a2.0 = 8 and ?adv2.0 = adv_wait
      and ?cls2.0 = cls_ok and ?func2.0 = func_gen and ?ival2.0 = 0 and ?progress2.0 = False
      and ?t2.0 = 2] e nf live
  have "newfunc adv_wait cls_ok func_gen one_key 0 (Some POLICY_SINGLETON) False 2 8 world1_single
       = Some (Inr 1, world1_single)" by (simp add: one_key_def)
  with e nf live show ?thesis by (simp add: world_defs)
qed

subsection \<open>The tasks that exist\<close>

























subsection \<open>The policy pass-last\<close>



subsection \<open>A failed prerequisite\<close>

text \<open>
  Claim C9. When the prerequisite has failed with error \<open>e\<close>, \<open>_process\<close> clears its
  marker of an unhandled failure and resumes the generator with \<open>throw(e)\<close>: the outcome
  and the next state of the generator are those of that throw, whatever they are, and
  the marker is cleared also when the throw raises and when there is no generator. The
  prerequisite stays failed. So the first statement of the loop of \<open>_step\<close>, for a task
  whose prerequisite has failed, throws the stored error into the generator of the
  task and leaves the prerequisite without the marker.
\<close>

theorem process_clears_unhandled:
  assumes "ip_state (promises s r) = Failed e"
  shows "process adv (Some g) (Some r) s
           = ((fst (adv g (Throw e)), Some (snd (adv g (Throw e)))),
              upd_ip r (\<lambda>p. p\<lparr>ip_unhandled := False\<rparr>) s)
       \<and> process adv None (Some r) s
           = ((Raise AttributeError, None), upd_ip r (\<lambda>p. p\<lparr>ip_unhandled := False\<rparr>) s)
       \<and> \<not> ip_unhandled (promises (snd (process adv generator (Some r) s)) r)
       \<and> ip_state (promises (snd (process adv generator (Some r) s)) r) = Failed e
       \<and> (coroutine T = Some g \<and> prerequisite_ip T = Some r \<longrightarrow>
            step_advance adv t T s
              = (fst (adv g (Throw e)),
                 upd_task t (\<lambda>T. T\<lparr>coroutine := Some (snd (adv g (Throw e)))\<rparr>)
                   (upd_ip r (\<lambda>p. p\<lparr>ip_unhandled := False\<rparr>) s)))"
  using assms
  by (simp add: process_def resume_def step_advance_def exception_of_def upd_ip_def
      split: prod.splits)

theorem process_clears_unhandled_witness:
  "ip_state (promises world7 7) = Failed (Error 3)
   \<and> ip_unhandled (promises world7 7)
   \<and> fst (process adv_echo (Some 0) (Some 7) world7) = (Raise (Error 3), Some 1)
   \<and> \<not> ip_unhandled (promises (snd (process adv_echo (Some 0) (Some 7) world7)) 7)
   \<and> fst (step_advance adv_echo 1
          \<lparr>coroutine = Some 0, timer = True, timer_active = None, interval = 0,
            prerequisite_ip = Some 7\<rparr> world7) = Raise (Error 3)
   \<and> fst (process adv_echo (Some 0) None world7) = (Yield NotFinished, Some 1)"
  using process_clears_unhandled [of world7 7 "Error 3" adv_echo 0 "Some 0"
      "\<lparr>coroutine = Some 0, timer = True, timer_active = None, interval = 0,
        prerequisite_ip = Some 7\<rparr>" 1]
  by (simp add: run_defs adv_echo_def)

end
